theory Spec2Isabelle
  imports Main "HOL-Library.AList" "HOL-Library.Product_Lexorder"
begin

section \<open>The puzzle model\<close>

text \<open>
  The solver of \<^verbatim>\<open>generate.py\<close> works on a \<^verbatim>\<open>Crossword\<close> object built by
  \<^verbatim>\<open>crossword.py\<close>. Only the parts the solver reads are modelled: the variables, the
  vocabulary and the overlap table. Python's sets and dicts are lists here, in the
  order in which Python iterates over them; a dict's keys are distinct.
\<close>

datatype direction = ACROSS | DOWN

text \<open>
  Modelled from the spec: the class \<^verbatim>\<open>Variable\<close> of \<^verbatim>\<open>crossword.py\<close>. A variable is one
  slot of the grid: starting row \<^verbatim>\<open>i\<close>, starting column \<^verbatim>\<open>j\<close>, \<^verbatim>\<open>direction\<close> and
  \<^verbatim>\<open>length\<close>; two variables are equal iff all four attributes match.
\<close>

datatype variable =
  Variable (var_i: int) (var_j: int) (var_direction: direction) (var_length: int)

text \<open>
  Modelled from the spec: the class \<^verbatim>\<open>Crossword\<close> of \<^verbatim>\<open>crossword.py\<close>, the puzzle
  model, with the fields that the solver reads. \<^verbatim>\<open>overlaps\<close> is the dict from ordered
  pairs of variables to \<^verbatim>\<open>None\<close> or a pair of indices, in insertion order.
\<close>

record crossword =
  variables :: "variable list"
  words :: "string list"
  overlaps :: "((variable \<times> variable) \<times> (nat \<times> nat) option) list"

datatype error = KeyError | IndexError | TypeError | UnboundLocalError

text \<open>\<^verbatim>\<open>d[k]\<close> on a dict: a missing key raises \<^verbatim>\<open>KeyError\<close>.\<close>

definition lookup :: "('k \<times> 'v) list \<Rightarrow> 'k \<Rightarrow> error + 'v" where
  "lookup d k = (case map_of d k of None \<Rightarrow> Inl KeyError | Some v \<Rightarrow> Inr v)"

text \<open>
  Modelled from the spec: \<^verbatim>\<open>Crossword.neighbors\<close> of \<^verbatim>\<open>crossword.py\<close>, the variables
  that overlap a given one: every other variable whose entry in the overlap table
  against \<^verbatim>\<open>var\<close> is a pair of indices.
\<close>

definition neighbors :: "crossword \<Rightarrow> variable \<Rightarrow> variable list" where
  "neighbors P var =
     filter (\<lambda>v. v \<noteq> var \<and>
                 (case map_of (overlaps P) (v, var) of Some (Some ij) \<Rightarrow> True | _ \<Rightarrow> False))
       (variables P)"

text \<open>
  Modelled from the spec: what the puzzle model guarantees of the overlap table, which
  \<^verbatim>\<open>crossword.py\<close> computes once from the geometry. The variables are a set, the table
  has one entry for every ordered pair of distinct variables of the puzzle, the entry of
  \<^verbatim>\<open>(b, a)\<close> is the entry of \<^verbatim>\<open>(a, b)\<close> with its indices swapped, and an index lies
  within its variable's slot. The order of the entries is left open.
\<close>

definition wf_crossword :: "crossword \<Rightarrow> bool" where
  "wf_crossword P \<longleftrightarrow>
     distinct (variables P) \<and>
     distinct (map fst (overlaps P)) \<and>
     list_all (\<lambda>((a, b), ov). a \<in> set (variables P) \<and> b \<in> set (variables P) \<and> a \<noteq> b \<and>
         (case ov of
            None \<Rightarrow> map_of (overlaps P) (b, a) = Some None
          | Some (ka, kb) \<Rightarrow> map_of (overlaps P) (b, a) = Some (Some (kb, ka)) \<and>
              int ka < var_length a \<and> int kb < var_length b))
       (overlaps P) \<and>
     list_all (\<lambda>a. list_all (\<lambda>b. a = b \<or> map_of (overlaps P) (a, b) \<noteq> None) (variables P))
       (variables P)"

section \<open>The solver state\<close>

text \<open>
  \<^verbatim>\<open>self.domains\<close>: a dict from each variable to its set of candidate words.
  An assignment: a dict from each variable to \<^verbatim>\<open>None\<close> or a word.
\<close>

type_synonym domains = "(variable \<times> string list) list"
type_synonym assignment = "(variable \<times> string option) list"

text \<open>\<^verbatim>\<open>__init__\<close>: every variable gets a copy of the vocabulary.\<close>

definition init_domains :: "crossword \<Rightarrow> domains" where
  "init_domains P = map (\<lambda>var. (var, words P)) (variables P)"

text \<open>\<^verbatim>\<open>for value in vals: cands.remove(value)\<close> on a set.\<close>

definition remove_each :: "string list \<Rightarrow> string list \<Rightarrow> string list" where
  "remove_each vals cands = fold removeAll vals cands"

section \<open>Node consistency\<close>

definition enforce_node_consistency :: "domains \<Rightarrow> domains" where
  "enforce_node_consistency doms =
     map (\<lambda>(var, cands).
            (var, remove_each (filter (\<lambda>val. int (length val) > var_length var) cands) cands))
       doms"

section \<open>Revise\<close>

text \<open>
  The comparison \<^verbatim>\<open>val_x[overlap_index[0]] == val_y[overlap_index[1]]\<close> under
  \<^verbatim>\<open>try ... except IndexError: continue\<close>: subscripting \<^verbatim>\<open>None\<close> is a \<^verbatim>\<open>TypeError\<close>,
  which the handler does not catch; an index out of range counts as no match.
\<close>

definition chars_agree :: "(nat \<times> nat) option \<Rightarrow> string \<Rightarrow> string \<Rightarrow> error + bool" where
  "chars_agree overlap_index val_x val_y =
     (case overlap_index of
        None \<Rightarrow> Inl TypeError
      | Some (kx, ky) \<Rightarrow>
          Inr (kx < length val_x \<and> ky < length val_y \<and> val_x ! kx = val_y ! ky))"

text \<open>The inner loop of \<^verbatim>\<open>revise\<close>: is there a \<^verbatim>\<open>val_y\<close> that matches \<^verbatim>\<open>val_x\<close>?\<close>

fun found_y :: "(nat \<times> nat) option \<Rightarrow> string \<Rightarrow> string list \<Rightarrow> error + bool" where
  "found_y overlap_index val_x [] = Inr False"
| "found_y overlap_index val_x (val_y # rest) =
     (case chars_agree overlap_index val_x val_y of
        Inl e \<Rightarrow> Inl e
      | Inr True \<Rightarrow> Inr True
      | Inr False \<Rightarrow> found_y overlap_index val_x rest)"

text \<open>The outer loop of \<^verbatim>\<open>revise\<close>: collect \<^verbatim>\<open>x_values_to_be_removed\<close>.\<close>

fun x_values_to_be_removed ::
  "domains \<Rightarrow> variable \<Rightarrow> (nat \<times> nat) option \<Rightarrow> string list \<Rightarrow> error + string list" where
  "x_values_to_be_removed doms y overlap_index [] = Inr []"
| "x_values_to_be_removed doms y overlap_index (val_x # rest) =
     (case lookup doms y of
        Inl e \<Rightarrow> Inl e
      | Inr dom_y \<Rightarrow>
          (case found_y overlap_index val_x dom_y of
             Inl e \<Rightarrow> Inl e
           | Inr found \<Rightarrow>
               (case x_values_to_be_removed doms y overlap_index rest of
                  Inl e \<Rightarrow> Inl e
                | Inr removed \<Rightarrow> Inr (if found then removed else val_x # removed))))"

definition revise :: "crossword \<Rightarrow> domains \<Rightarrow> variable \<Rightarrow> variable \<Rightarrow> error + (bool \<times> domains)" where
  "revise P doms x y =
     (case lookup (overlaps P) (x, y) of
        Inl e \<Rightarrow> Inl e
      | Inr overlap_index \<Rightarrow>
          (case lookup doms x of
             Inl e \<Rightarrow> Inl e
           | Inr dom_x \<Rightarrow>
               (case x_values_to_be_removed doms y overlap_index dom_x of
                  Inl e \<Rightarrow> Inl e
                | Inr removed \<Rightarrow>
                    Inr (removed \<noteq> [], AList.update x (remove_each removed dom_x) doms))))"

lemma set_remove_each: "set (remove_each vals cands) = set cands - set vals"
  unfolding remove_each_def by (induction vals arbitrary: cands) auto

lemma remove_each_filter: "remove_each vals cands = filter (\<lambda>w. w \<notin> set vals) cands"
  unfolding remove_each_def
proof (induction vals arbitrary: cands)
  case Nil
  then show ?case by simp
next
  case (Cons v vs)
  have "filter (\<lambda>w. w \<notin> set vs) (removeAll v cands) = filter (\<lambda>w. w \<notin> set (v # vs)) cands"
    by (induction cands) auto
  with Cons show ?case by simp
qed

section \<open>AC-3\<close>

definition total_size :: "domains \<Rightarrow> nat" where
  "total_size doms = sum_list (map (\<lambda>(var, cands). length cands) doms)"

lemma x_values_to_be_removed_subset:
  "x_values_to_be_removed doms y ov dx = Inr removed \<Longrightarrow> set removed \<subseteq> set dx"
  by (induction dx arbitrary: removed) (auto split: sum.splits if_splits)

lemma total_size_update_less:
  "map_of doms x = Some dx \<Longrightarrow> length d' < length dx \<Longrightarrow>
   total_size (AList.update x d' doms) < total_size doms"
  unfolding total_size_def by (induction doms) (auto split: if_splits)

lemma length_remove_each_less:
  assumes "removed \<noteq> []" and "set removed \<subseteq> set dx"
  shows "length (remove_each removed dx) < length dx"
proof -
  from assms obtain w where w: "w \<in> set removed" "w \<in> set dx"
    by (cases removed) auto
  then show ?thesis
    unfolding remove_each_filter by (intro length_filter_less[of w]) auto
qed

lemma revise_shrinks:
  assumes "revise P doms x y = Inr (True, doms')"
  shows "total_size doms' < total_size doms"
proof -
  from assms obtain ov dx removed where
    dx: "map_of doms x = Some dx" and
    rem: "x_values_to_be_removed doms y ov dx = Inr removed" and
    ne: "removed \<noteq> []" and
    d': "doms' = AList.update x (remove_each removed dx) doms"
    by (auto simp: revise_def lookup_def split: sum.splits option.splits)
  from length_remove_each_less[OF ne x_values_to_be_removed_subset[OF rem]]
  show ?thesis unfolding d' by (rule total_size_update_less[OF dx])
qed

lemma revise_unchanged:
  assumes "revise P doms x y = Inr (False, doms')"
  shows "doms' = doms"
proof -
  from assms obtain dx where dx: "map_of doms x = Some dx"
    and d': "doms' = AList.update x (remove_each [] dx) doms"
    by (auto simp: revise_def lookup_def split: sum.splits option.splits)
  show ?thesis unfolding d' using dx by (simp add: remove_each_def update_triv)
qed

text \<open>
  The \<^verbatim>\<open>while\<close> loop of \<^verbatim>\<open>ac3\<close> over \<^verbatim>\<open>arc_queue\<close>: \<^verbatim>\<open>pop(0)\<close> takes the head,
  \<^verbatim>\<open>append\<close> adds at the end.
\<close>

function ac3_loop ::
  "crossword \<Rightarrow> domains \<Rightarrow> (variable \<times> variable) list \<Rightarrow> error + (bool \<times> domains)" where
  "ac3_loop P doms [] = Inr (True, doms)"
| "ac3_loop P doms (arc # arc_queue) =
     (case lookup (overlaps P) arc of
        Inl e \<Rightarrow> Inl e
      | Inr None \<Rightarrow> ac3_loop P doms arc_queue
      | Inr (Some ov) \<Rightarrow>
          (case revise P doms (fst arc) (snd arc) of
             Inl e \<Rightarrow> Inl e
           | Inr (revision_made, doms') \<Rightarrow>
               (case lookup doms' (fst arc) of
                  Inl e \<Rightarrow> Inl e
                | Inr dom_x \<Rightarrow>
                    if length dom_x = 0 then Inr (False, doms')
                    else if revision_made
                    then ac3_loop P doms'
                           (arc_queue @
                            filter (\<lambda>potential_arc. fst arc = snd potential_arc)
                              (map fst (overlaps P)))
                    else ac3_loop P doms' arc_queue)))"
  by pat_completeness auto
termination
proof (relation "measures [\<lambda>(P, doms, q). total_size doms, \<lambda>(P, doms, q). length q]",
    goal_cases)
  case 1
  show ?case by simp
next
  case (2 P doms arc arc_queue ov)
  show ?case by simp
next
  case (3 P doms arc arc_queue ov x2a rp revision_made doms' dom_x)
  then have "revise P doms (fst arc) (snd arc) = Inr (True, doms')" by simp
  from revise_shrinks[OF this] show ?case by simp
next
  case (4 P doms arc arc_queue ov x2a rp revision_made doms' dom_x)
  then have "revise P doms (fst arc) (snd arc) = Inr (False, doms')" by simp
  from revise_unchanged[OF this] show ?case by simp
qed

text \<open>
  \<^verbatim>\<open>ac3(arcs)\<close>: \<^verbatim>\<open>arc_queue\<close> is bound only in the branch \<^verbatim>\<open>arcs == None\<close>; the
  \<^verbatim>\<open>while\<close> then reads it.
\<close>

definition ac3 ::
  "crossword \<Rightarrow> domains \<Rightarrow> (variable \<times> variable) list option \<Rightarrow> error + (bool \<times> domains)" where
  "ac3 P doms arcs =
     (case arcs of
        None \<Rightarrow> ac3_loop P doms (map fst (overlaps P))
      | Some given \<Rightarrow> Inl UnboundLocalError)"

section \<open>Assignments\<close>

text \<open>
  \<^verbatim>\<open>for var in assignment\<close> iterates over the keys of the dict, and
  \<^verbatim>\<open>assignment[var]\<close> looks the key up.
\<close>

definition assignment_complete :: "assignment \<Rightarrow> bool" where
  "assignment_complete asg = list_all (\<lambda>var. lookup asg var \<noteq> Inr None) (map fst asg)"

text \<open>
  The loop of \<^verbatim>\<open>consistent\<close> over the neighbours of \<^verbatim>\<open>var\<close>. The comparison
  \<^verbatim>\<open>assignment[var][overlap_index[0]] != assignment[neighbor_var][overlap_index[1]]\<close>
  stands outside any \<^verbatim>\<open>try\<close>: an index out of range raises \<^verbatim>\<open>IndexError\<close>.
\<close>

fun check_neighbors ::
  "crossword \<Rightarrow> assignment \<Rightarrow> variable \<Rightarrow> string \<Rightarrow> variable list \<Rightarrow> error + bool" where
  "check_neighbors P asg var word [] = Inr True"
| "check_neighbors P asg var word (neighbor_var # rest) =
     (case lookup asg neighbor_var of
        Inl e \<Rightarrow> Inl e
      | Inr None \<Rightarrow> check_neighbors P asg var word rest
      | Inr (Some neighbor_word) \<Rightarrow>
          (case lookup (overlaps P) (var, neighbor_var) of
             Inl e \<Rightarrow> Inl e
           | Inr None \<Rightarrow> check_neighbors P asg var word rest
           | Inr (Some (k0, k1)) \<Rightarrow>
               if \<not> k0 < length word then Inl IndexError
               else if \<not> k1 < length neighbor_word then Inl IndexError
               else if word ! k0 \<noteq> neighbor_word ! k1 then Inr False
               else check_neighbors P asg var word rest))"

text \<open>The outer loop of \<^verbatim>\<open>consistent\<close> over the variables of the assignment.\<close>

fun consistent_loop :: "crossword \<Rightarrow> assignment \<Rightarrow> variable list \<Rightarrow> error + bool" where
  "consistent_loop P asg [] = Inr True"
| "consistent_loop P asg (var # rest) =
     (case lookup asg var of
        Inl e \<Rightarrow> Inl e
      | Inr None \<Rightarrow> consistent_loop P asg rest
      | Inr (Some word) \<Rightarrow>
          if list_ex (\<lambda>comp_var. comp_var \<noteq> var \<and> lookup asg comp_var = Inr (Some word))
               (map fst asg)
          then Inr False
          else if int (length word) \<noteq> var_length var then Inr False
          else (case check_neighbors P asg var word (neighbors P var) of
                  Inl e \<Rightarrow> Inl e
                | Inr False \<Rightarrow> Inr False
                | Inr True \<Rightarrow> consistent_loop P asg rest))"

definition consistent :: "crossword \<Rightarrow> assignment \<Rightarrow> error + bool" where
  "consistent P asg = consistent_loop P asg (map fst asg)"

section \<open>Ordering heuristics\<close>

text \<open>
  \<^verbatim>\<open>order_domain_values\<close>: the innermost loop, over the candidates of one unassigned
  neighbour. Here the comparison stands under \<^verbatim>\<open>try ... except IndexError\<close>, and an index
  out of range counts as ruled out.
\<close>

fun ruled_out_in ::
  "crossword \<Rightarrow> variable \<Rightarrow> variable \<Rightarrow> string \<Rightarrow> nat \<Rightarrow> string list \<Rightarrow> error + nat" where
  "ruled_out_in P var neighbor_var val num [] = Inr num"
| "ruled_out_in P var neighbor_var val num (comp_value # rest) =
     (if comp_value = val then ruled_out_in P var neighbor_var val (num + 1) rest
      else (case lookup (overlaps P) (var, neighbor_var) of
              Inl e \<Rightarrow> Inl e
            | Inr vars_overlap_index \<Rightarrow>
                (case chars_agree vars_overlap_index val comp_value of
                   Inl e \<Rightarrow> Inl e
                 | Inr agree \<Rightarrow>
                     ruled_out_in P var neighbor_var val (if agree then num else num + 1) rest)))"

fun num_ruled_out ::
  "crossword \<Rightarrow> domains \<Rightarrow> assignment \<Rightarrow> variable \<Rightarrow> string \<Rightarrow> nat \<Rightarrow> variable list \<Rightarrow>
   error + nat" where
  "num_ruled_out P doms asg var val num [] = Inr num"
| "num_ruled_out P doms asg var val num (neighbor_var # rest) =
     (case lookup asg neighbor_var of
        Inl e \<Rightarrow> Inl e
      | Inr (Some w) \<Rightarrow> num_ruled_out P doms asg var val num rest
      | Inr None \<Rightarrow>
          (case lookup doms neighbor_var of
             Inl e \<Rightarrow> Inl e
           | Inr dom_n \<Rightarrow>
               (case ruled_out_in P var neighbor_var val num dom_n of
                  Inl e \<Rightarrow> Inl e
                | Inr num' \<Rightarrow> num_ruled_out P doms asg var val num' rest)))"

fun value_elimination_dict ::
  "crossword \<Rightarrow> domains \<Rightarrow> assignment \<Rightarrow> variable \<Rightarrow> string list \<Rightarrow>
   error + (string \<times> nat) list" where
  "value_elimination_dict P doms asg var [] = Inr []"
| "value_elimination_dict P doms asg var (val # rest) =
     (case num_ruled_out P doms asg var val 0 (neighbors P var) of
        Inl e \<Rightarrow> Inl e
      | Inr n \<Rightarrow>
          (case value_elimination_dict P doms asg var rest of
             Inl e \<Rightarrow> Inl e
           | Inr d \<Rightarrow> Inr ((val, n) # d)))"

text \<open>\<^verbatim>\<open>sorted(d, key=d.get)\<close> is a stable sort of the keys by their counts.\<close>

definition order_domain_values ::
  "crossword \<Rightarrow> domains \<Rightarrow> variable \<Rightarrow> assignment \<Rightarrow> error + string list" where
  "order_domain_values P doms var asg =
     (case lookup doms var of
        Inl e \<Rightarrow> Inl e
      | Inr all_var_values \<Rightarrow>
          (case value_elimination_dict P doms asg var all_var_values of
             Inl e \<Rightarrow> Inl e
           | Inr d \<Rightarrow> Inr (map fst (sort_key snd d))))"

text \<open>
  \<^verbatim>\<open>select_unassigned_variable\<close>: the first key whose value is \<^verbatim>\<open>None\<close>; falling off
  the loop returns \<^verbatim>\<open>None\<close>.
\<close>

definition select_unassigned_variable :: "assignment \<Rightarrow> variable option" where
  "select_unassigned_variable asg = find (\<lambda>var. lookup asg var = Inr None) (map fst asg)"

section \<open>Backtracking search\<close>

text \<open>
  The \<^verbatim>\<open>for value in ...\<close> loop of \<^verbatim>\<open>backtrack\<close>: the first value whose branch returns
  an assignment ends the loop; an exception leaves it.
\<close>

fun try_each :: "('a \<Rightarrow> error + 'b option) \<Rightarrow> 'a list \<Rightarrow> error + 'b option" where
  "try_each f [] = Inr None"
| "try_each f (x # xs) =
     (case f x of
        Inl e \<Rightarrow> Inl e
      | Inr (Some r) \<Rightarrow> Inr (Some r)
      | Inr None \<Rightarrow> try_each f xs)"

lemma try_each_cong [fundef_cong]:
  "xs = ys \<Longrightarrow> (\<And>x. x \<in> set ys \<Longrightarrow> f x = g x) \<Longrightarrow> try_each f xs = try_each g ys"
  by (induction ys arbitrary: xs) (auto split: sum.splits option.splits)

definition unassigned :: "assignment \<Rightarrow> nat" where
  "unassigned asg = card {var \<in> set (map fst asg). map_of asg var = Some None}"

lemma unassigned_update_less:
  assumes "select_unassigned_variable asg = Some var"
  shows "unassigned (AList.update var (Some val) asg) < unassigned asg"
proof -
  from assms have var: "var \<in> set (map fst asg)" "map_of asg var = Some None"
    by (auto simp: select_unassigned_variable_def lookup_def find_Some_iff
        split: option.splits)
  have "{v \<in> set (map fst (AList.update var (Some val) asg)).
          map_of (AList.update var (Some val) asg) v = Some None}
        \<subset> {v \<in> set (map fst asg). map_of asg v = Some None}"
    using var by (auto simp: update_conv' dom_update)
  then show ?thesis unfolding unassigned_def by (intro psubset_card_mono) auto
qed

text \<open>
  The head of \<^verbatim>\<open>backtrack\<close>: an empty assignment is filled with \<^verbatim>\<open>None\<close> for every
  variable of the puzzle.
\<close>

definition start_assignment :: "crossword \<Rightarrow> assignment \<Rightarrow> assignment" where
  "start_assignment P assignment =
     (if length assignment = 0 then map (\<lambda>var. (var, None)) (variables P) else assignment)"

text \<open>
  \<^verbatim>\<open>backtrack\<close>, on assignments as values. The code mutates one dict and shares it with
  the recursive call; a branch that fails has reset every variable it set
  (\<^verbatim>\<open>assignment[var] = None\<close>), so the next value is tried on the assignment the loop
  started from (\<open>backtrack_in_place\<close> below runs on the shared dict and agrees with
  this function). The consistency check runs on a deep copy.
\<close>

function backtrack :: "crossword \<Rightarrow> domains \<Rightarrow> assignment \<Rightarrow> error + assignment option" where
  "backtrack P doms assignment =
     (let asg = start_assignment P assignment
      in if assignment_complete asg then Inr (Some asg)
         else (case select_unassigned_variable asg of
                 None \<Rightarrow> Inl KeyError
               | Some var \<Rightarrow>
                   (case order_domain_values P doms var asg of
                      Inl e \<Rightarrow> Inl e
                    | Inr vals \<Rightarrow>
                        try_each
                          (\<lambda>val. case consistent P (AList.update var (Some val) asg) of
                                   Inl e \<Rightarrow> Inl e
                                 | Inr False \<Rightarrow> Inr None
                                 | Inr True \<Rightarrow>
                                     backtrack P doms (AList.update var (Some val) asg))
                          vals)))"
  by pat_completeness auto
termination
proof (relation "measure (\<lambda>(P, doms, a). unassigned (start_assignment P a))", goal_cases)
  case 1
  show ?case by simp
next
  case (2 P doms assignment asg var vals val b)
  from unassigned_update_less[OF 2(3)] 2(1) show ?case
    by (simp add: start_assignment_def)
qed

declare backtrack.simps [simp del]

text \<open>
  \<^verbatim>\<open>backtrack\<close> as the code runs it, on the one shared dict: the function returns its
  result together with the dict as the call leaves it, and after a failed branch the
  loop goes on with that dict, \<^verbatim>\<open>var\<close> reset to \<^verbatim>\<open>None\<close>. The first argument bounds
  the depth of the recursion; \<open>backtrack_in_place_eq\<close> shows that with a bound above
  the number of unassigned variables it returns what \<open>backtrack\<close> returns, and that
  a failed call leaves the dict as it found it.
\<close>

fun backtrack_in_place ::
    "nat \<Rightarrow> crossword \<Rightarrow> domains \<Rightarrow> assignment \<Rightarrow>
     ((error + assignment option) \<times> assignment) option"
  and try_values_in_place ::
    "nat \<Rightarrow> crossword \<Rightarrow> domains \<Rightarrow> variable \<Rightarrow> string list \<Rightarrow> assignment \<Rightarrow>
     ((error + assignment option) \<times> assignment) option" where
  "backtrack_in_place 0 P doms assignment = None"
| "backtrack_in_place (Suc n) P doms assignment =
     (let asg = start_assignment P assignment
      in if assignment_complete asg then Some (Inr (Some asg), asg)
         else (case select_unassigned_variable asg of
                 None \<Rightarrow> Some (Inl KeyError, asg)
               | Some var \<Rightarrow>
                   (case order_domain_values P doms var asg of
                      Inl e \<Rightarrow> Some (Inl e, asg)
                    | Inr vals \<Rightarrow> try_values_in_place n P doms var vals asg)))"
| "try_values_in_place n P doms var [] asg = Some (Inr None, asg)"
| "try_values_in_place n P doms var (val # vals) asg =
     (case consistent P (AList.update var (Some val) asg) of
        Inl e \<Rightarrow> Some (Inl e, asg)
      | Inr False \<Rightarrow> try_values_in_place n P doms var vals asg
      | Inr True \<Rightarrow>
          (case backtrack_in_place n P doms (AList.update var (Some val) asg) of
             None \<Rightarrow> None
           | Some (Inr None, asg') \<Rightarrow>
               try_values_in_place n P doms var vals (AList.update var None asg')
           | Some (result, asg') \<Rightarrow> Some (result, asg')))"

section \<open>Solve\<close>

text \<open>The methods that \<^verbatim>\<open>solve\<close> calls.\<close>

datatype call = Enforce_node_consistency | Ac3 | Backtrack

text \<open>
  \<^verbatim>\<open>solve\<close>, with the calls it makes in order: node consistency on the initial domains,
  \<^verbatim>\<open>self.ac3()\<close> whose result is dropped, then \<^verbatim>\<open>self.backtrack(dict())\<close>. An exception
  in \<^verbatim>\<open>ac3\<close> ends \<^verbatim>\<open>solve\<close> before the search.
\<close>

definition solve_trace :: "crossword \<Rightarrow> call list \<times> (error + assignment option)" where
  "solve_trace P =
     (let doms = enforce_node_consistency (init_domains P)
      in case ac3 P doms None of
           Inl e \<Rightarrow> ([Enforce_node_consistency, Ac3], Inl e)
         | Inr (arc_consistent, doms') \<Rightarrow>
             ([Enforce_node_consistency, Ac3, Backtrack], backtrack P doms' []))"

text \<open>What \<^verbatim>\<open>solve\<close> returns or raises.\<close>

definition solve :: "crossword \<Rightarrow> error + assignment option" where
  "solve P = snd (solve_trace P)"

section \<open>The domains as objects\<close>

text \<open>
  In Python \<^verbatim>\<open>self.domains\<close> maps each variable to a reference to a set object, and
  \<^verbatim>\<open>revise\<close> mutates the set of \<open>x\<close> in place. The objects live in a heap, a list of
  cells addressed by position; cell 0 is \<^verbatim>\<open>crossword.words\<close>.
\<close>

record creator =
  domain_refs :: "(variable \<times> nat) list"
  heap :: "string list list"

text \<open>
  One step of the dict comprehension of \<^verbatim>\<open>__init__\<close>: \<^verbatim>\<open>self.crossword.words.copy()\<close>
  allocates a new set with the elements of cell 0, and the dict binds \<open>var\<close> to it.
\<close>

definition copy_words :: "variable \<Rightarrow> creator \<Rightarrow> creator" where
  "copy_words var c =
     \<lparr>domain_refs = AList.update var (length (heap c)) (domain_refs c),
      heap = heap c @ [heap c ! 0]\<rparr>"

definition new_creator :: "crossword \<Rightarrow> creator" where
  "new_creator P = fold copy_words (variables P) \<lparr>domain_refs = [], heap = [words P]\<rparr>"

text \<open>\<^verbatim>\<open>self.domains[var]\<close>, read through the reference.\<close>

definition domain_at :: "creator \<Rightarrow> variable \<Rightarrow> error + string list" where
  "domain_at c var =
     (case lookup (domain_refs c) var of Inl e \<Rightarrow> Inl e | Inr a \<Rightarrow> Inr (heap c ! a))"

text \<open>The domains as values: what the dict of references denotes.\<close>

definition view :: "creator \<Rightarrow> domains" where
  "view c = map (\<lambda>(var, a). (var, heap c ! a)) (domain_refs c)"

text \<open>
  \<^verbatim>\<open>revise\<close> on the heap: the removals go to the cell that \<^verbatim>\<open>self.domains[x]\<close> refers to.
\<close>

definition revise_heap ::
  "crossword \<Rightarrow> creator \<Rightarrow> variable \<Rightarrow> variable \<Rightarrow> error + (bool \<times> creator)" where
  "revise_heap P c x y =
     (case lookup (overlaps P) (x, y) of
        Inl e \<Rightarrow> Inl e
      | Inr overlap_index \<Rightarrow>
          (case lookup (domain_refs c) x of
             Inl e \<Rightarrow> Inl e
           | Inr a \<Rightarrow>
               (case x_values_to_be_removed (view c) y overlap_index (heap c ! a) of
                  Inl e \<Rightarrow> Inl e
                | Inr removed \<Rightarrow>
                    Inr (removed \<noteq> [],
                         c\<lparr>heap := (heap c)[a := remove_each removed (heap c ! a)]\<rparr>))))"

text \<open>
  No two variables refer to the same set, and no variable refers to the vocabulary
  itself.
\<close>

definition separated :: "creator \<Rightarrow> bool" where
  "separated c \<longleftrightarrow>
     distinct (map fst (domain_refs c)) \<and> distinct (map snd (domain_refs c)) \<and>
     list_all (\<lambda>(var, a). 0 < a \<and> a < length (heap c)) (domain_refs c)"

section \<open>Satisfying assignments\<close>

text \<open>
  Following the spec's words (the Consistency Check, 4.4, on a complete assignment):
  every variable of the puzzle has a word of its slot's length, no two variables have
  the same word, and the words of every two overlapping variables agree at the overlap
  indices.
\<close>

definition spec_solution :: "crossword \<Rightarrow> assignment \<Rightarrow> bool" where
  "spec_solution P a \<longleftrightarrow>
     (\<forall>v\<in>set (variables P).
        case map_of a v of Some (Some w) \<Rightarrow> int (length w) = var_length v | _ \<Rightarrow> False) \<and>
     (\<forall>v1\<in>set (variables P). \<forall>v2\<in>set (variables P). v1 \<noteq> v2 \<longrightarrow> map_of a v1 \<noteq> map_of a v2) \<and>
     (\<forall>((x, y), ov)\<in>set (overlaps P).
        case (ov, map_of a x, map_of a y) of
          (Some (kx, ky), Some (Some wx), Some (Some wy)) \<Rightarrow>
             kx < length wx \<and> ky < length wy \<and> wx ! kx = wy ! ky
        | _ \<Rightarrow> True)"

section \<open>Arc consistency\<close>

text \<open>
  Two words agree at an overlap \<open>(kx, ky)\<close> when both indices are in range and the
  characters are equal.
\<close>

definition agrees :: "nat \<Rightarrow> nat \<Rightarrow> string \<Rightarrow> string \<Rightarrow> bool" where
  "agrees kx ky wx wy \<longleftrightarrow> kx < length wx \<and> ky < length wy \<and> wx ! kx = wy ! ky"

text \<open>
  An arc \<open>(x, y)\<close> with a defined overlap is consistent when every word of \<open>x\<close>'s domain
  has a supporting word in \<open>y\<close>'s domain.
\<close>

definition arc_ok :: "crossword \<Rightarrow> domains \<Rightarrow> variable \<times> variable \<Rightarrow> bool" where
  "arc_ok P D arc \<longleftrightarrow>
     (case (map_of (overlaps P) arc, map_of D (fst arc), map_of D (snd arc)) of
        (Some (Some (kx, ky)), Some dx, Some dy) \<Rightarrow>
           \<forall>wx\<in>set dx. \<exists>wy\<in>set dy. agrees kx ky wx wy
      | _ \<Rightarrow> True)"

text \<open>
  The invariant of the loop of \<^verbatim>\<open>ac3\<close>: every arc of the table is in the queue or
  consistent, and every arc with a defined overlap is in the queue or its first
  variable has a non-empty domain.
\<close>

definition ac3_inv :: "crossword \<Rightarrow> domains \<Rightarrow> (variable \<times> variable) list \<Rightarrow> bool" where
  "ac3_inv P D q \<longleftrightarrow>
     (\<forall>arc\<in>set (map fst (overlaps P)).
        (arc \<in> set q \<or> arc_ok P D arc) \<and>
        ((\<exists>k. map_of (overlaps P) arc = Some (Some k)) \<longrightarrow>
           arc \<in> set q \<or>
           (\<exists>dx dy. map_of D (fst arc) = Some dx \<and> dx \<noteq> [] \<and> map_of D (snd arc) = Some dy)))"

section \<open>Invariants of the search\<close>

text \<open>
  Every word that the assignment gives to a variable of the puzzle is in that
  variable's domain.
\<close>

definition from_domains :: "crossword \<Rightarrow> domains \<Rightarrow> assignment \<Rightarrow> bool" where
  "from_domains P D a \<longleftrightarrow>
     (\<forall>v\<in>set (variables P). \<forall>w. map_of a v = Some (Some w) \<longrightarrow>
        (\<exists>d. map_of D v = Some d \<and> w \<in> set d))"

text \<open>
  Every word of a domain is long enough for every overlap index of its variable.
\<close>

definition index_safe :: "crossword \<Rightarrow> domains \<Rightarrow> bool" where
  "index_safe P D \<longleftrightarrow>
     (\<forall>x y kx ky d. map_of (overlaps P) (x, y) = Some (Some (kx, ky)) \<longrightarrow>
        map_of D x = Some d \<longrightarrow> (\<forall>w\<in>set d. kx < length w))"

text \<open>
  What the body of the loop of \<^verbatim>\<open>consistent\<close> checks for one variable: no other
  variable has its word, the word has the slot's length, and it agrees with the words of
  the assigned neighbours.
\<close>

definition var_fine :: "crossword \<Rightarrow> assignment \<Rightarrow> variable \<Rightarrow> bool" where
  "var_fine P a var \<longleftrightarrow>
     (\<forall>w. map_of a var = Some (Some w) \<longrightarrow>
        \<not> list_ex (\<lambda>cv. cv \<noteq> var \<and> lookup a cv = Inr (Some w)) (map fst a) \<and>
        int (length w) = var_length var \<and>
        (\<forall>n\<in>set (neighbors P var). \<forall>nw k0 k1.
           map_of a n = Some (Some nw) \<longrightarrow>
           map_of (overlaps P) (var, n) = Some (Some (k0, k1)) \<longrightarrow> w ! k0 = nw ! k1))"

text \<open>
  The partial assignment \<open>a\<close> agrees with \<open>s\<close> wherever it assigns a word.
\<close>

definition extends_to :: "crossword \<Rightarrow> assignment \<Rightarrow> assignment \<Rightarrow> bool" where
  "extends_to P a s \<longleftrightarrow>
     (\<forall>v\<in>set (variables P). \<forall>w. map_of a v = Some (Some w) \<longrightarrow> map_of s v = Some (Some w))"

text \<open>
  The invariant of the loop of \<^verbatim>\<open>ac3\<close> in the presence of a satisfying assignment
  \<open>s\<close>: the words of \<open>s\<close> stay in the domains, and the domains stay within the
  vocabulary.
\<close>

definition ac3_sol_inv ::
  "crossword \<Rightarrow> assignment \<Rightarrow> domains \<Rightarrow> (variable \<times> variable) list \<Rightarrow> bool" where
  "ac3_sol_inv P s D q \<longleftrightarrow>
     ac3_inv P D q \<and> set q \<subseteq> set (map fst (overlaps P)) \<and> map fst D = variables P \<and>
     from_domains P D s \<and> (\<forall>v d. map_of D v = Some d \<longrightarrow> set d \<subseteq> set (words P))"

section \<open>The order of the queue\<close>

text \<open>
  \<open>u\<close> stands before the first occurrence of \<open>x\<close> in the list.
\<close>

definition comes_before :: "variable list \<Rightarrow> variable \<Rightarrow> variable \<Rightarrow> bool" where
  "comes_before vs u x \<longleftrightarrow> u \<in> set (takeWhile (\<lambda>v. v \<noteq> x) vs)"

text \<open>
  Modelled from the spec: the overlap table is computed once, in a loop over the
  variables of the puzzle, so its keys come in the order of their first variable: the
  order in which the solver iterates over \<^verbatim>\<open>crossword.variables\<close> when it fills the
  domains and the assignment.
\<close>

definition dict_order :: "crossword \<Rightarrow> bool" where
  "dict_order P \<longleftrightarrow>
     sorted_wrt (\<lambda>a b. \<not> comes_before (variables P) (fst b) (fst a)) (map fst (overlaps P))"

text \<open>
  Some word of the domain of the arc's first variable is too short for the overlap
  index of the arc.
\<close>

definition arc_unsafe :: "crossword \<Rightarrow> domains \<Rightarrow> variable \<times> variable \<Rightarrow> bool" where
  "arc_unsafe P D arc \<longleftrightarrow>
     (\<exists>kx ky d w. map_of (overlaps P) arc = Some (Some (kx, ky)) \<and>
        map_of D (fst arc) = Some d \<and> w \<in> set d \<and> \<not> kx < length w)"

text \<open>
  A second invariant of the loop of \<^verbatim>\<open>ac3\<close>: an arc with a word too short for it
  is still in the queue, and no arc ahead of it in the queue starts at a later
  variable.
\<close>

definition order_inv :: "crossword \<Rightarrow> domains \<Rightarrow> (variable \<times> variable) list \<Rightarrow> bool" where
  "order_inv P D q \<longleftrightarrow>
     (\<forall>arc. arc_unsafe P D arc \<longrightarrow>
        (\<exists>q1 q2. q = q1 @ arc # q2 \<and>
           (\<forall>a\<in>set q1. \<not> comes_before (variables P) (fst arc) (fst a))))"

section \<open>Example puzzles\<close>

text \<open>
  A 2 x 2 grid with two crossing slots of length 2: the across slot of row 0 and the
  down slot of column 1, which share the cell (0, 1).
\<close>

definition ex_across :: variable where
  "ex_across = Variable 0 0 ACROSS 2"

definition ex_down :: variable where
  "ex_down = Variable 0 1 DOWN 2"

definition ex_cross :: crossword where
  "ex_cross =
     \<lparr>variables = [ex_across, ex_down], words = [''AT'', ''TO'', ''OX''],
      overlaps = [((ex_across, ex_down), Some (1, 0)), ((ex_down, ex_across), Some (0, 1))]\<rparr>"

text \<open>One isolated slot of length 3; the only word of the vocabulary is too long for it.\<close>

definition ex_slot :: variable where
  "ex_slot = Variable 0 0 ACROSS 3"

definition ex_single :: crossword where
  "ex_single = \<lparr>variables = [ex_slot], words = [''ABCD''], overlaps = []\<rparr>"

text \<open>
  Two crossing slots of length 3: the across slot of row 0 and the down slot of column
  1 share the cell (0, 1). No word of the vocabulary has as its second letter the first
  letter of another.
\<close>

definition ex_clash_across :: variable where
  "ex_clash_across = Variable 0 0 ACROSS 3"

definition ex_clash_down :: variable where
  "ex_clash_down = Variable 0 1 DOWN 3"

definition ex_clash :: crossword where
  "ex_clash =
     \<lparr>variables = [ex_clash_across, ex_clash_down], words = [''CAT'', ''DOG''],
      overlaps = [((ex_clash_across, ex_clash_down), Some (1, 0)),
                  ((ex_clash_down, ex_clash_across), Some (0, 1))]\<rparr>"

section \<open>Dictionary lookups\<close>

lemma lookup_update_same: "lookup (AList.update k v d) k = Inr v"
  by (simp add: lookup_def update_conv')

lemma lookup_update_other: "k' \<noteq> k \<Longrightarrow> lookup (AList.update k v d) k' = lookup d k'"
  by (simp add: lookup_def update_conv')

section \<open>Node consistency: what the enforcer removes\<close>

text \<open>
  C3. The claim: after \<^verbatim>\<open>enforce_node_consistency\<close> every word left in a variable's
  domain has the slot's length. The code removes only the words that are longer than
  the slot: for a slot of length 3 and the candidates AB, CAT and ABCD it removes ABCD
  and keeps AB, a word of length 2.
\<close>

theorem node_consistency_keeps_short_words:
  "enforce_node_consistency [(Variable 0 0 ACROSS 3, [''AB'', ''CAT'', ''ABCD''])] =
     [(Variable 0 0 ACROSS 3, [''AB'', ''CAT''])]"
  by (simp add: enforce_node_consistency_def remove_each_def)

section \<open>Revise\<close>

lemma found_y_Some:
  "found_y (Some (kx, ky)) wx dy =
     Inr (\<exists>wy\<in>set dy. kx < length wx \<and> ky < length wy \<and> wx ! kx = wy ! ky)"
  by (induction dy) (auto simp: chars_agree_def split: bool.splits)

lemma x_values_to_be_removed_Some:
  assumes "lookup doms y = Inr dy"
  shows "x_values_to_be_removed doms y (Some (kx, ky)) dx =
     Inr (filter (\<lambda>wx. \<not> (\<exists>wy\<in>set dy. kx < length wx \<and> ky < length wy \<and> wx ! kx = wy ! ky)) dx)"
  using assms by (induction dx) (auto simp: found_y_Some)

text \<open>
  C6. For variables \<open>x\<close> and \<open>y\<close> with the overlap \<open>(kx, ky)\<close>, \<^verbatim>\<open>revise(x, y)\<close> keeps a
  word \<open>wx\<close> of \<open>x\<close>'s domain iff some word \<open>wy\<close> of \<open>y\<close>'s domain has
  \<open>wx[kx] = wy[ky]\<close>, where a word too short for its index neither satisfies nor
  supports; the new domain of \<open>x\<close> is exactly the kept words, and the result is
  \<^verbatim>\<open>True\<close> iff some word was removed.
\<close>

theorem revise_contract:
  assumes "lookup (overlaps P) (x, y) = Inr (Some (kx, ky))"
    and "lookup doms x = Inr dom_x"
    and "lookup doms y = Inr dom_y"
  shows "\<exists>doms'.
     revise P doms x y =
       Inr (\<exists>wx\<in>set dom_x. \<not> (\<exists>wy\<in>set dom_y.
               kx < length wx \<and> ky < length wy \<and> wx ! kx = wy ! ky), doms') \<and>
     lookup doms' x =
       Inr (filter (\<lambda>wx. \<exists>wy\<in>set dom_y.
               kx < length wx \<and> ky < length wy \<and> wx ! kx = wy ! ky) dom_x)"
proof -
  let ?kept = "\<lambda>wx. \<exists>wy\<in>set dom_y. kx < length wx \<and> ky < length wy \<and> wx ! kx = wy ! ky"
  have rem: "x_values_to_be_removed doms y (Some (kx, ky)) dom_x =
      Inr (filter (\<lambda>wx. \<not> ?kept wx) dom_x)"
    by (rule x_values_to_be_removed_Some[OF assms(3)])
  have new: "remove_each (filter (\<lambda>wx. \<not> ?kept wx) dom_x) dom_x = filter ?kept dom_x"
    unfolding remove_each_filter by (rule filter_cong) auto
  have made: "(filter (\<lambda>wx. \<not> ?kept wx) dom_x \<noteq> []) = (\<exists>wx\<in>set dom_x. \<not> ?kept wx)"
    by (simp add: filter_empty_conv)
  have "revise P doms x y =
      Inr (\<exists>wx\<in>set dom_x. \<not> ?kept wx, AList.update x (filter ?kept dom_x) doms)"
    unfolding revise_def using assms(1,2) rem new made by simp
  then show ?thesis by (simp add: lookup_update_same)
qed

theorem revise_contract_witness:
  "lookup (overlaps ex_cross) (ex_across, ex_down) = Inr (Some (1, 0)) \<and>
   (\<exists>doms'. revise ex_cross (init_domains ex_cross) ex_across ex_down = Inr (True, doms') \<and>
      lookup doms' ex_across = Inr [''AT'', ''TO''])"
proof -
  have ov: "lookup (overlaps ex_cross) (ex_across, ex_down) = Inr (Some (1, 0))"
    by (simp add: lookup_def ex_cross_def)
  have dx: "lookup (init_domains ex_cross) ex_across = Inr [''AT'', ''TO'', ''OX'']"
    by (simp add: lookup_def init_domains_def ex_cross_def)
  have dy: "lookup (init_domains ex_cross) ex_down = Inr [''AT'', ''TO'', ''OX'']"
    by (simp add: lookup_def init_domains_def ex_cross_def ex_across_def ex_down_def)
  from revise_contract[OF ov dx dy] ov show ?thesis by simp
qed

section \<open>AC-3 with a supplied queue\<close>

text \<open>
  C9. The claim: called with a list of arcs, \<^verbatim>\<open>ac3\<close> uses it as the initial queue and
  returns a boolean. The code binds \<^verbatim>\<open>arc_queue\<close> only when \<^verbatim>\<open>arcs\<close> is \<^verbatim>\<open>None\<close>, so
  with any list of arcs, the empty one included, the loop's first read of \<^verbatim>\<open>arc_queue\<close>
  raises \<^verbatim>\<open>UnboundLocalError\<close>.
\<close>

theorem ac3_supplied_queue_unbound: "ac3 P doms (Some arcs) = Inl UnboundLocalError"
  by (simp add: ac3_def)

section \<open>The consistency check on short words\<close>

text \<open>
  C7. The claim: the consistency check returns a boolean on every partial assignment, and
  an overlap index out of a word's range counts as a violated constraint. In the
  2 x 2 puzzle, with the down slot assigned AT and then the across slot assigned T, the
  check compares \<^verbatim>\<open>"AT"[0]\<close> with \<^verbatim>\<open>"T"[1]\<close> before it has looked at the length of T, and
  the \<^verbatim>\<open>IndexError\<close> is not handled.
\<close>

theorem consistent_short_word_raises:
  "consistent ex_cross [(ex_down, Some ''AT''), (ex_across, Some ''T'')] = Inl IndexError"
  by (simp add: consistent_def lookup_def neighbors_def ex_cross_def ex_across_def ex_down_def)

section \<open>Variable selection\<close>

text \<open>
  C8. The claim: \<^verbatim>\<open>select_unassigned_variable\<close> returns an unassigned variable with the
  fewest remaining candidates, ties broken by the highest degree. The code never reads
  the domains or the overlaps: it returns the first variable of the assignment whose
  value is \<^verbatim>\<open>None\<close>, whatever the others are.
\<close>

theorem select_returns_first_unassigned:
  "select_unassigned_variable ((var, None) # rest) = Some var"
  by (simp add: select_unassigned_variable_def lookup_def)

section \<open>Domain isolation\<close>

lemma lookup_view: "lookup (view c) var = domain_at c var"
proof -
  have "map_of (map (\<lambda>(v, a). (v, h ! a)) refs) var = map_option (\<lambda>a. h ! a) (map_of refs var)"
    for h :: "string list list" and refs :: "(variable \<times> nat) list"
    by (induction refs) auto
  then show ?thesis
    by (simp add: lookup_def domain_at_def view_def split: option.splits)
qed

lemma snd_update_subset: "snd ` set (AList.update k v al) \<subseteq> insert v (snd ` set al)"
  by (induction al) auto

lemma distinct_snd_update:
  "distinct (map snd al) \<Longrightarrow> v \<notin> snd ` set al \<Longrightarrow> distinct (map snd (AList.update k v al))"
proof (induction al)
  case Nil
  then show ?case by simp
next
  case (Cons p al)
  show ?case
  proof (cases "fst p = k")
    case True
    with Cons.prems show ?thesis by auto
  next
    case False
    have "snd p \<notin> snd ` set (AList.update k v al)"
      using snd_update_subset[of k v al] Cons.prems by auto
    with False Cons show ?thesis by auto
  qed
qed

lemma separated_copy_words:
  assumes "separated c" and "heap c \<noteq> []"
  shows "separated (copy_words var c)"
proof -
  let ?n = "length (heap c)"
  from assms(1) have bound: "\<forall>(v, a)\<in>set (domain_refs c). 0 < a \<and> a < ?n"
    by (simp add: separated_def list_all_iff)
  then have fresh: "?n \<notin> snd ` set (domain_refs c)" by auto
  have "\<forall>(v, a)\<in>set (AList.update var ?n (domain_refs c)). 0 < a \<and> a < Suc ?n"
  proof -
    have "snd p = ?n \<or> snd p \<in> snd ` set (domain_refs c)"
      if "p \<in> set (AList.update var ?n (domain_refs c))" for p
      using snd_update_subset[of var ?n "domain_refs c"] that by auto
    moreover from assms(2) have "0 < ?n" by simp
    ultimately show ?thesis using bound by (fastforce simp: less_Suc_eq)
  qed
  with assms(1) fresh show ?thesis
    by (simp add: separated_def copy_words_def list_all_iff distinct_update distinct_snd_update)
qed

lemma fold_copy_words:
  assumes "separated c" and "heap c \<noteq> []" and "\<forall>cell\<in>set (heap c). cell = ws"
  shows "separated (fold copy_words vs c) \<and>
         (\<forall>cell\<in>set (heap (fold copy_words vs c)). cell = ws) \<and>
         fst ` set (domain_refs (fold copy_words vs c)) = set vs \<union> fst ` set (domain_refs c)"
  using assms
proof (induction vs arbitrary: c)
  case Nil
  then show ?case by simp
next
  case (Cons v vs)
  have 1: "separated (copy_words v c)" by (rule separated_copy_words) (use Cons.prems in auto)
  have 2: "heap (copy_words v c) \<noteq> []" by (simp add: copy_words_def)
  have 3: "\<forall>cell\<in>set (heap (copy_words v c)). cell = ws"
    using Cons.prems(2,3) by (cases "heap c") (auto simp: copy_words_def)
  have 4: "fst ` set (domain_refs (copy_words v c)) = insert v (fst ` set (domain_refs c))"
    by (simp add: copy_words_def dom_update)
  from Cons.IH[OF 1 2 3] 4 show ?case by auto
qed

lemma domain_at_cells:
  assumes "separated c" and "\<forall>cell\<in>set (heap c). cell = ws"
    and "var \<in> fst ` set (domain_refs c)"
  shows "domain_at c var = Inr ws"
proof -
  from assms(3) obtain a where a: "map_of (domain_refs c) var = Some a"
    by (cases "map_of (domain_refs c) var") (auto simp: map_of_eq_None_iff)
  then have "(var, a) \<in> set (domain_refs c)" by (rule map_of_SomeD)
  with assms(1) have "a < length (heap c)" by (auto simp: separated_def list_all_iff)
  with assms(2) a show ?thesis by (simp add: domain_at_def lookup_def)
qed

lemma new_creator_separated:
  "separated (new_creator P) \<and>
   (\<forall>var\<in>set (variables P). domain_at (new_creator P) var = Inr (words P)) \<and>
   fst ` set (domain_refs (new_creator P)) = set (variables P)"
proof -
  let ?c0 = "\<lparr>domain_refs = [], heap = [words P]\<rparr>"
  have "separated ?c0" "heap ?c0 \<noteq> []" "\<forall>cell\<in>set (heap ?c0). cell = words P"
    by (simp_all add: separated_def)
  from fold_copy_words[OF this, of "variables P"]
  have sep: "separated (new_creator P)"
    and cells: "\<forall>cell\<in>set (heap (new_creator P)). cell = words P"
    and keys: "fst ` set (domain_refs (new_creator P)) = set (variables P)"
    by (simp_all add: new_creator_def)
  from domain_at_cells[OF sep cells] keys sep show ?thesis by auto
qed

lemma revise_heap_frame:
  assumes sep: "separated c" and rev: "revise_heap P c x y = Inr (b, c')"
  shows "separated c' \<and> domain_refs c' = domain_refs c \<and> heap c' ! 0 = heap c ! 0 \<and>
         (\<forall>v. v \<noteq> x \<longrightarrow> domain_at c' v = domain_at c v)"
proof -
  from rev obtain ov a removed where
    a: "map_of (domain_refs c) x = Some a" and
    c': "c' = c\<lparr>heap := (heap c)[a := remove_each removed (heap c ! a)]\<rparr>"
    by (auto simp: revise_heap_def lookup_def split: sum.splits option.splits)
  from a have xa: "(x, a) \<in> set (domain_refs c)" by (rule map_of_SomeD)
  with sep have a0: "0 < a" by (auto simp: separated_def list_all_iff)
  have other: "domain_at c' v = domain_at c v" if "v \<noteq> x" for v
  proof (cases "map_of (domain_refs c) v")
    case None
    then show ?thesis by (simp add: domain_at_def lookup_def c')
  next
    case (Some a')
    then have va: "(v, a') \<in> set (domain_refs c)" by (rule map_of_SomeD)
    from sep have "inj_on snd (set (domain_refs c))"
      by (simp add: separated_def distinct_map)
    from inj_onD[OF this _ va xa] that have "a' \<noteq> a" by auto
    with Some show ?thesis by (simp add: domain_at_def lookup_def c')
  qed
  from sep a0 other show ?thesis by (simp add: c' separated_def)
qed

lemma view_heap_update:
  assumes "separated c" and "map_of (domain_refs c) x = Some a"
  shows "view (c\<lparr>heap := (heap c)[a := new]\<rparr>) = AList.update x new (view c)"
proof -
  from assms(2) have xa: "(x, a) \<in> set (domain_refs c)" by (rule map_of_SomeD)
  with assms(1) have alen: "a < length (heap c)" by (auto simp: separated_def list_all_iff)
  have "map (\<lambda>(v, a'). (v, h[a := new] ! a')) refs
        = AList.update x new (map (\<lambda>(v, a'). (v, h ! a')) refs)"
    if "distinct (map fst refs)" "distinct (map snd refs)" "(x, a) \<in> set refs" "a < length h"
    for refs :: "(variable \<times> nat) list" and h :: "string list list"
    using that
  proof (induction refs)
    case Nil
    then show ?case by simp
  next
    case (Cons p refs)
    show ?case
    proof (cases "p = (x, a)")
      case True
      have "h[a := new] ! a' = h ! a'" if "(v, a') \<in> set refs" for v a'
        using that Cons.prems(2) True by (force simp: image_iff)
      then have "map (\<lambda>(v, a'). (v, h[a := new] ! a')) refs = map (\<lambda>(v, a'). (v, h ! a')) refs"
        by (intro map_cong) auto
      with True Cons.prems(4) show ?thesis by simp
    next
      case False
      with Cons.prems have in_rest: "(x, a) \<in> set refs" by auto
      with Cons.prems(1,2) have "fst p \<noteq> x" "snd p \<noteq> a" by (force simp: image_iff)+
      with Cons.IH in_rest Cons.prems show ?thesis by (cases p) auto
    qed
  qed
  from this[of "domain_refs c" "heap c"] assms(1) xa alen show ?thesis
    by (simp add: view_def separated_def)
qed

lemma revise_heap_refines:
  assumes "separated c"
  shows "revise P (view c) x y =
     (case revise_heap P c x y of Inl e \<Rightarrow> Inl e | Inr (b, c') \<Rightarrow> Inr (b, view c'))"
proof (cases "lookup (overlaps P) (x, y)")
  case (Inl e)
  then show ?thesis by (simp add: revise_def revise_heap_def)
next
  case ov: (Inr ov)
  show ?thesis
  proof (cases "map_of (domain_refs c) x")
    case None
    then have "lookup (domain_refs c) x = Inl KeyError" by (simp add: lookup_def)
    with ov show ?thesis
      by (simp add: revise_def revise_heap_def lookup_view domain_at_def)
  next
    case (Some a)
    then have a: "lookup (domain_refs c) x = Inr a" by (simp add: lookup_def)
    show ?thesis
    proof (cases "x_values_to_be_removed (view c) y ov (heap c ! a)")
      case (Inl e)
      with ov a show ?thesis
        by (simp add: revise_def revise_heap_def lookup_view domain_at_def)
    next
      case (Inr removed)
      with ov a view_heap_update[OF assms Some] show ?thesis
        by (simp add: revise_def revise_heap_def lookup_view domain_at_def)
    qed
  qed
qed

text \<open>
  C10. Each variable's initial domain is a copy of the vocabulary of its own: after
  \<^verbatim>\<open>__init__\<close> no two variables share a set object and none shares the vocabulary's,
  and every domain holds the vocabulary. \<^verbatim>\<open>revise(x, y)\<close> mutates only the set of
  \<open>x\<close>: in a state where the sets are separate, a call that returns leaves the
  vocabulary and the domain of every variable other than \<open>x\<close> (so also that of
  \<open>y\<close>) as they were, and the sets stay separate.
\<close>

theorem domain_isolation:
  "separated (new_creator P) \<and>
   (\<forall>var\<in>set (variables P). domain_at (new_creator P) var = Inr (words P)) \<and>
   (\<forall>c x y b c'. separated c \<longrightarrow> revise_heap P c x y = Inr (b, c') \<longrightarrow>
      separated c' \<and> heap c' ! 0 = heap c ! 0 \<and>
      (\<forall>v. v \<noteq> x \<longrightarrow> domain_at c' v = domain_at c v))"
proof (intro conjI allI impI)
  show "separated (new_creator P)" using new_creator_separated[of P] by simp
  show "\<forall>var\<in>set (variables P). domain_at (new_creator P) var = Inr (words P)"
    using new_creator_separated[of P] by simp
next
  fix c x y b c' v
  assume "separated c" "revise_heap P c x y = Inr (b, c')"
  note fr = revise_heap_frame[OF this]
  from fr show "separated c'" by simp
  from fr show "heap c' ! 0 = heap c ! 0" by simp
  assume "v \<noteq> x"
  with fr show "domain_at c' v = domain_at c v" by simp
qed

theorem domain_isolation_witness:
  "separated (new_creator ex_cross) \<and>
   domain_at (new_creator ex_cross) ex_down = Inr [''AT'', ''TO'', ''OX''] \<and>
   (\<exists>c'. revise_heap ex_cross (new_creator ex_cross) ex_across ex_down = Inr (True, c') \<and>
      domain_at c' ex_across = Inr [''AT'', ''TO''] \<and>
      domain_at c' ex_down = Inr [''AT'', ''TO'', ''OX''])"
proof -
  let ?c' = "\<lparr>domain_refs = [(ex_across, 1), (ex_down, 2)],
      heap = [[''AT'', ''TO'', ''OX''], [''AT'', ''TO''], [''AT'', ''TO'', ''OX'']]\<rparr>"
  have rev: "revise_heap ex_cross (new_creator ex_cross) ex_across ex_down = Inr (True, ?c')"
    by code_simp
  have x: "domain_at ?c' ex_across = Inr [''AT'', ''TO'']"
    by code_simp
  have ne: "ex_down \<noteq> ex_across" by code_simp
  have w: "words ex_cross = [''AT'', ''TO'', ''OX'']" "ex_down \<in> set (variables ex_cross)"
    by (simp_all add: ex_cross_def)
  from domain_isolation[of ex_cross] rev x ne w show ?thesis by auto
qed

section \<open>Search soundness\<close>

lemma try_each_Some:
  "try_each f xs = Inr (Some r) \<Longrightarrow> \<exists>x\<in>set xs. f x = Inr (Some r)"
  by (induction xs) (auto split: sum.splits option.splits)

lemma select_Some_key:
  "select_unassigned_variable asg = Some var \<Longrightarrow>
   var \<in> fst ` set asg \<and> map_of asg var = Some None"
  by (auto simp: select_unassigned_variable_def lookup_def find_Some_iff split: option.splits)

lemma map_fst_update_key:
  "k \<in> fst ` set al \<Longrightarrow> map fst (AList.update k v al) = map fst al"
  by (induction al) auto

lemma start_assignment_update [simp]:
  "start_assignment P (AList.update k v al) = AList.update k v al"
  by (simp add: start_assignment_def)

lemma backtrack_unfold:
  "backtrack P doms assignment =
     (if assignment_complete (start_assignment P assignment)
      then Inr (Some (start_assignment P assignment))
      else (case select_unassigned_variable (start_assignment P assignment) of
              None \<Rightarrow> Inl KeyError
            | Some var \<Rightarrow>
                (case order_domain_values P doms var (start_assignment P assignment) of
                   Inl e \<Rightarrow> Inl e
                 | Inr vals \<Rightarrow>
                     try_each
                       (\<lambda>val. case consistent P
                                  (AList.update var (Some val) (start_assignment P assignment)) of
                                Inl e \<Rightarrow> Inl e
                              | Inr False \<Rightarrow> Inr None
                              | Inr True \<Rightarrow>
                                  backtrack P doms
                                    (AList.update var (Some val) (start_assignment P assignment)))
                       vals)))"
  by (subst backtrack.simps) (simp only: Let_def)

lemma backtrack_sound:
  "backtrack P doms asg = Inr (Some a) \<Longrightarrow>
   consistent P (start_assignment P asg) = Inr True \<Longrightarrow>
   consistent P a = Inr True \<and> assignment_complete a \<and>
   map fst a = map fst (start_assignment P asg)"
proof (induction "unassigned (start_assignment P asg)" arbitrary: asg rule: less_induct)
  case less
  define asg0 where "asg0 = start_assignment P asg"
  note unf = backtrack_unfold[of P doms asg, folded asg0_def]
  show ?case
  proof (cases "assignment_complete asg0")
    case True
    with less.prems unf show ?thesis by (simp add: asg0_def)
  next
    case False
    with less.prems(1) unf obtain var vals where
      sel: "select_unassigned_variable asg0 = Some var" and
      tr: "try_each
              (\<lambda>val. case consistent P (AList.update var (Some val) asg0) of
                       Inl e \<Rightarrow> Inl e
                     | Inr False \<Rightarrow> Inr None
                     | Inr True \<Rightarrow> backtrack P doms (AList.update var (Some val) asg0))
              vals = Inr (Some a)"
      by (auto split: option.splits sum.splits)
    from try_each_Some[OF tr] obtain val where
      f: "(case consistent P (AList.update var (Some val) asg0) of
             Inl e \<Rightarrow> Inl e
           | Inr False \<Rightarrow> Inr None
           | Inr True \<Rightarrow> backtrack P doms (AList.update var (Some val) asg0)) = Inr (Some a)"
      by blast
    have con: "consistent P (AList.update var (Some val) asg0) = Inr True"
      using f by (cases "consistent P (AList.update var (Some val) asg0)") (auto split: bool.splits)
    with f have rec: "backtrack P doms (AList.update var (Some val) asg0) = Inr (Some a)"
      by simp
    have "unassigned (start_assignment P (AList.update var (Some val) asg0))
        < unassigned (start_assignment P asg)"
      using unassigned_update_less[OF sel] by (simp add: asg0_def)
    from less.hyps[OF this rec] con
    have "consistent P a = Inr True \<and> assignment_complete a \<and>
       map fst a = map fst (AList.update var (Some val) asg0)"
      by simp
    with select_Some_key[OF sel] show ?thesis
      by (simp add: asg0_def map_fst_update_key)
  qed
qed

lemma check_neighbors_True:
  "check_neighbors P a var word ns = Inr True \<Longrightarrow> n \<in> set ns \<Longrightarrow>
   lookup a n = Inr (Some nw) \<Longrightarrow> lookup (overlaps P) (var, n) = Inr (Some (k0, k1)) \<Longrightarrow>
   k0 < length word \<and> k1 < length nw \<and> word ! k0 = nw ! k1"
  by (induction ns) (auto split: sum.splits option.splits if_splits)

lemma consistent_loop_True:
  "consistent_loop P a vs = Inr True \<Longrightarrow> var \<in> set vs \<Longrightarrow> lookup a var = Inr (Some word) \<Longrightarrow>
   \<not> list_ex (\<lambda>cv. cv \<noteq> var \<and> lookup a cv = Inr (Some word)) (map fst a) \<and>
   int (length word) = var_length var \<and>
   check_neighbors P a var word (neighbors P var) = Inr True"
  by (induction vs) (auto split: sum.splits option.splits if_splits bool.splits)

lemma wf_overlapD:
  assumes "wf_crossword P" and "((x, y), ov) \<in> set (overlaps P)"
  shows "x \<in> set (variables P)" "y \<in> set (variables P)" "x \<noteq> y"
    "map_of (overlaps P) (x, y) = Some ov"
    "map_of (overlaps P) (y, x) = Some (map_option (\<lambda>(kx, ky). (ky, kx)) ov)"
    "\<And>kx ky. ov = Some (kx, ky) \<Longrightarrow> int kx < var_length x \<and> int ky < var_length y"
proof -
  from assms have d: "distinct (map fst (overlaps P))" by (simp add: wf_crossword_def)
  from assms have
    "x \<in> set (variables P) \<and> y \<in> set (variables P) \<and> x \<noteq> y \<and>
      (case ov of
         None \<Rightarrow> map_of (overlaps P) (y, x) = Some None
       | Some (ka, kb) \<Rightarrow> map_of (overlaps P) (y, x) = Some (Some (kb, ka)) \<and>
           int ka < var_length x \<and> int kb < var_length y)"
    unfolding wf_crossword_def list_all_iff by fast
  then show "x \<in> set (variables P)" "y \<in> set (variables P)" "x \<noteq> y"
    "map_of (overlaps P) (y, x) = Some (map_option (\<lambda>(kx, ky). (ky, kx)) ov)"
    "\<And>kx ky. ov = Some (kx, ky) \<Longrightarrow> int kx < var_length x \<and> int ky < var_length y"
    by (auto split: option.splits)
  from d assms(2) show "map_of (overlaps P) (x, y) = Some ov" by simp
qed

lemma wf_total:
  assumes "wf_crossword P" "x \<in> set (variables P)" "y \<in> set (variables P)" "x \<noteq> y"
  shows "\<exists>ov. map_of (overlaps P) (x, y) = Some ov"
proof -
  from assms have "map_of (overlaps P) (x, y) \<noteq> None"
    unfolding wf_crossword_def list_all_iff by blast
  then show ?thesis by blast
qed

lemma neighbors_iff:
  assumes "wf_crossword P"
  shows "y \<in> set (neighbors P x) \<longleftrightarrow> (\<exists>k. map_of (overlaps P) (x, y) = Some (Some k))"
proof
  assume "y \<in> set (neighbors P x)"
  then obtain k where "map_of (overlaps P) (y, x) = Some (Some k)"
    by (auto simp: neighbors_def split: option.splits)
  then have "((y, x), Some k) \<in> set (overlaps P)" by (rule map_of_SomeD)
  from wf_overlapD(5)[OF assms this] show "\<exists>k. map_of (overlaps P) (x, y) = Some (Some k)"
    by simp
next
  assume "\<exists>k. map_of (overlaps P) (x, y) = Some (Some k)"
  then obtain k where "map_of (overlaps P) (x, y) = Some (Some k)" ..
  then have "((x, y), Some k) \<in> set (overlaps P)" by (rule map_of_SomeD)
  from wf_overlapD[OF assms this] show "y \<in> set (neighbors P x)"
    by (auto simp: neighbors_def split: option.splits)
qed

lemma spec_solution_of_consistent:
  assumes wf: "wf_crossword P" and keys: "map fst a = variables P"
    and comp: "assignment_complete a" and con: "consistent P a = Inr True"
  shows "spec_solution P a"
proof -
  have assigned: "\<exists>w. map_of a v = Some (Some w)" if "v \<in> set (variables P)" for v
  proof -
    from that keys have "v \<in> fst ` set a" by (metis list.set_map)
    then obtain o' where o': "map_of a v = Some o'"
      by (cases "map_of a v") (auto simp: map_of_eq_None_iff)
    from comp that keys have "lookup a v \<noteq> Inr None"
      by (simp add: assignment_complete_def list_all_iff)
    with o' show ?thesis by (cases o') (auto simp: lookup_def)
  qed
  have checked: "\<not> list_ex (\<lambda>cv. cv \<noteq> v \<and> lookup a cv = Inr (Some w)) (map fst a) \<and>
      int (length w) = var_length v \<and> check_neighbors P a v w (neighbors P v) = Inr True"
    if "v \<in> set (variables P)" "map_of a v = Some (Some w)" for v w
    using consistent_loop_True[OF con[unfolded consistent_def], of v w] that keys
    by (simp add: lookup_def)
  have 1: "\<forall>v\<in>set (variables P).
      case map_of a v of Some (Some w) \<Rightarrow> int (length w) = var_length v | _ \<Rightarrow> False"
  proof
    fix v assume v: "v \<in> set (variables P)"
    from assigned[OF v] obtain w where w: "map_of a v = Some (Some w)" ..
    from checked[OF v w] w show
      "case map_of a v of Some (Some w) \<Rightarrow> int (length w) = var_length v | _ \<Rightarrow> False"
      by simp
  qed
  have 2: "\<forall>v1\<in>set (variables P). \<forall>v2\<in>set (variables P).
      v1 \<noteq> v2 \<longrightarrow> map_of a v1 \<noteq> map_of a v2"
  proof (intro ballI impI)
    fix v1 v2 assume v: "v1 \<in> set (variables P)" "v2 \<in> set (variables P)" "v1 \<noteq> v2"
    from assigned[OF v(1)] obtain w where w: "map_of a v1 = Some (Some w)" ..
    from checked[OF v(1) w] v(2,3) keys have "lookup a v2 \<noteq> Inr (Some w)"
      by (auto simp: list_ex_iff)
    with w show "map_of a v1 \<noteq> map_of a v2"
      by (cases "map_of a v2") (auto simp: lookup_def)
  qed
  have 3: "\<forall>((x, y), ov)\<in>set (overlaps P).
      case (ov, map_of a x, map_of a y) of
        (Some (kx, ky), Some (Some wx), Some (Some wy)) \<Rightarrow>
           kx < length wx \<and> ky < length wy \<and> wx ! kx = wy ! ky
      | _ \<Rightarrow> True"
  proof -
    have "case (ov, map_of a x, map_of a y) of
        (Some (kx, ky), Some (Some wx), Some (Some wy)) \<Rightarrow>
           kx < length wx \<and> ky < length wy \<and> wx ! kx = wy ! ky
      | _ \<Rightarrow> True" if mem: "((x, y), ov) \<in> set (overlaps P)" for x y ov
    proof (cases ov)
      case None
      then show ?thesis by simp
    next
      case (Some k)
      note o = wf_overlapD[OF wf mem]
      obtain kx ky where k: "k = (kx, ky)" by (cases k)
      from assigned[OF o(1)] obtain wx where wx: "map_of a x = Some (Some wx)" ..
      from assigned[OF o(2)] obtain wy where wy: "map_of a y = Some (Some wy)" ..
      from o(4) Some k have nb: "y \<in> set (neighbors P x)"
        by (simp add: neighbors_iff[OF wf])
      from checked[OF o(1) wx] have cn: "check_neighbors P a x wx (neighbors P x) = Inr True"
        by simp
      from wy have ly: "lookup a y = Inr (Some wy)" by (simp add: lookup_def)
      from o(4) Some k have lo: "lookup (overlaps P) (x, y) = Inr (Some (kx, ky))"
        by (simp add: lookup_def)
      from check_neighbors_True[OF cn nb ly lo]
      have "kx < length wx \<and> ky < length wy \<and> wx ! kx = wy ! ky" .
      with Some k wx wy show ?thesis by simp
    qed
    then show ?thesis by fast
  qed
  from 1 2 3 show ?thesis unfolding spec_solution_def by blast
qed

lemma lookup_unassigned:
  "v \<in> set ks \<Longrightarrow> lookup (map (\<lambda>var. (var, None)) ks) v = Inr None"
  by (induction ks) (auto simp: lookup_def)

lemma consistent_loop_unassigned:
  "set vs \<subseteq> set ks \<Longrightarrow> consistent_loop P (map (\<lambda>var. (var, None)) ks) vs = Inr True"
  by (induction vs) (simp_all add: lookup_unassigned)

lemma consistent_start: "consistent P (start_assignment P []) = Inr True"
  by (simp add: consistent_def start_assignment_def consistent_loop_unassigned comp_def)

text \<open>
  C1. Search soundness: when the backtracking search started from the empty assignment,
  as \<^verbatim>\<open>solve\<close> starts it, returns an assignment, that assignment maps every variable of
  the puzzle to a word and passes the consistency check: the words are pairwise
  distinct, each has its slot's length, and overlapping variables agree at the overlap
  indices.
\<close>

theorem search_soundness:
  assumes "wf_crossword P" and "backtrack P doms [] = Inr (Some a)"
  shows "map fst a = variables P \<and> assignment_complete a \<and> consistent P a = Inr True \<and>
     spec_solution P a"
proof -
  from backtrack_sound[OF assms(2) consistent_start]
  have a: "consistent P a = Inr True" "assignment_complete a" "map fst a = variables P"
    by (simp_all add: start_assignment_def comp_def)
  from spec_solution_of_consistent[OF assms(1) a(3,2,1)] a show ?thesis by simp
qed

lemma solve_backtrack:
  "solve P = Inr r \<Longrightarrow> \<exists>doms. backtrack P doms [] = Inr r"
  by (auto simp: solve_def solve_trace_def Let_def split: sum.splits)

theorem search_soundness_witness:
  "wf_crossword ex_cross \<and>
   backtrack ex_cross (init_domains ex_cross) [] =
     Inr (Some [(ex_across, Some ''AT''), (ex_down, Some ''TO'')]) \<and>
   consistent ex_cross [(ex_across, Some ''AT''), (ex_down, Some ''TO'')] = Inr True \<and>
   spec_solution ex_cross [(ex_across, Some ''AT''), (ex_down, Some ''TO'')]"
proof -
  have wf: "wf_crossword ex_cross" by code_simp
  have bt: "backtrack ex_cross (init_domains ex_cross) [] =
     Inr (Some [(ex_across, Some ''AT''), (ex_down, Some ''TO'')])" by code_simp
  from search_soundness[OF wf bt] wf bt show ?thesis by simp
qed

section \<open>Backtracking on the shared assignment\<close>

lemma try_values_in_place_eq:
  assumes IH: "\<And>a. unassigned (start_assignment P a) < n \<Longrightarrow>
      \<exists>st. backtrack_in_place n P D a = Some (backtrack P D a, st) \<and>
        (backtrack P D a = Inr None \<longrightarrow> st = start_assignment P a)"
    and sel: "select_unassigned_variable asg = Some var"
    and n: "unassigned asg \<le> n"
  shows "\<exists>st. try_values_in_place n P D var vals asg =
       Some (try_each
          (\<lambda>val. case consistent P (AList.update var (Some val) asg) of
                   Inl e \<Rightarrow> Inl e
                 | Inr False \<Rightarrow> Inr None
                 | Inr True \<Rightarrow> backtrack P D (AList.update var (Some val) asg)) vals, st) \<and>
       (try_each
          (\<lambda>val. case consistent P (AList.update var (Some val) asg) of
                   Inl e \<Rightarrow> Inl e
                 | Inr False \<Rightarrow> Inr None
                 | Inr True \<Rightarrow> backtrack P D (AList.update var (Some val) asg)) vals = Inr None
        \<longrightarrow> st = asg)"
proof (induction vals)
  case Nil
  show ?case by simp
next
  case (Cons val vals)
  let ?a = "AList.update var (Some val) asg"
  show ?case
  proof (cases "consistent P ?a")
    case (Inl e)
    then show ?thesis by simp
  next
    case (Inr b)
    show ?thesis
    proof (cases b)
      case False
      with Inr Cons show ?thesis by simp
    next
      case True
      have "unassigned (start_assignment P ?a) < n"
        using unassigned_update_less[OF sel, of val] n by simp
      from IH[OF this] obtain st where
        st: "backtrack_in_place n P D ?a = Some (backtrack P D ?a, st)"
          "backtrack P D ?a = Inr None \<longrightarrow> st = ?a" by auto
      show ?thesis
      proof (cases "backtrack P D ?a")
        case (Inl e)
        with Inr True st show ?thesis by simp
      next
        case r: (Inr r)
        show ?thesis
        proof (cases r)
          case None
          with r st have "st = ?a" by simp
          moreover have "AList.update var None ?a = asg"
            using select_Some_key[OF sel] by (simp add: update_triv)
          ultimately show ?thesis using Inr True st r None Cons by simp
        next
          case (Some res)
          with Inr True st r show ?thesis by simp
        qed
      qed
    qed
  qed
qed

lemma backtrack_in_place_eq:
  "unassigned (start_assignment P a) < n \<Longrightarrow>
   \<exists>st. backtrack_in_place n P D a = Some (backtrack P D a, st) \<and>
     (backtrack P D a = Inr None \<longrightarrow> st = start_assignment P a)"
proof (induction n arbitrary: a)
  case 0
  then show ?case by simp
next
  case (Suc n)
  define asg where "asg = start_assignment P a"
  note unf = backtrack_unfold[of P D a, folded asg_def]
  show ?case
  proof (cases "assignment_complete asg")
    case True
    with unf show ?thesis by (simp add: asg_def Let_def)
  next
    case False
    show ?thesis
    proof (cases "select_unassigned_variable asg")
      case None
      with False unf show ?thesis by (simp add: asg_def Let_def)
    next
      case (Some var)
      show ?thesis
      proof (cases "order_domain_values P D var asg")
        case (Inl e)
        with False Some unf show ?thesis by (simp add: asg_def Let_def)
      next
        case (Inr vals)
        from Suc.prems have "unassigned asg \<le> n" by (simp add: asg_def)
        from try_values_in_place_eq[of P n D asg var vals, OF Suc.IH Some this]
          False Some Inr unf
        show ?thesis by (simp add: asg_def[symmetric] Let_def)
      qed
    qed
  qed
qed

section \<open>AC-3: the loop invariant\<close>

lemma revise_defined:
  assumes "map_of (overlaps P) (x, y) = Some (Some (kx, ky))"
    and "map_of D x = Some dx" and "map_of D y = Some dy"
  shows "revise P D x y =
     Inr (\<exists>wx\<in>set dx. \<not> (\<exists>wy\<in>set dy. agrees kx ky wx wy),
          AList.update x (filter (\<lambda>wx. \<exists>wy\<in>set dy. agrees kx ky wx wy) dx) D)"
proof -
  let ?kept = "\<lambda>wx. \<exists>wy\<in>set dy. agrees kx ky wx wy"
  from assms(3) have "lookup D y = Inr dy" by (simp add: lookup_def)
  from x_values_to_be_removed_Some[OF this, of kx ky dx]
  have rem: "x_values_to_be_removed D y (Some (kx, ky)) dx = Inr (filter (\<lambda>wx. \<not> ?kept wx) dx)"
    by (simp add: agrees_def)
  have new: "remove_each (filter (\<lambda>wx. \<not> ?kept wx) dx) dx = filter ?kept dx"
    unfolding remove_each_filter by (rule filter_cong) auto
  have made: "(filter (\<lambda>wx. \<not> ?kept wx) dx \<noteq> []) = (\<exists>wx\<in>set dx. \<not> ?kept wx)"
    by (simp add: filter_empty_conv)
  show ?thesis
    unfolding revise_def using assms(1,2) rem new made by (simp add: lookup_def)
qed

lemma revise_empty:
  assumes "map_of (overlaps P) (x, y) = Some ov" and "map_of D x = Some []"
  shows "revise P D x y = Inr (False, D)"
  using assms by (simp add: revise_def lookup_def remove_each_def update_triv)

lemma revise_step:
  assumes rev: "revise P D x y = Inr (rm, D1)"
    and ov: "map_of (overlaps P) (x, y) = Some (Some (kx, ky))"
    and dx1: "lookup D1 x = Inr dx1" and ne: "dx1 \<noteq> []"
  shows "\<exists>dx dy. map_of D x = Some dx \<and> map_of D y = Some dy \<and>
     dx1 = filter (\<lambda>wx. \<exists>wy\<in>set dy. agrees kx ky wx wy) dx \<and>
     D1 = AList.update x dx1 D \<and>
     rm = (\<exists>wx\<in>set dx. \<not> (\<exists>wy\<in>set dy. agrees kx ky wx wy))"
proof -
  from rev ov obtain dx where dx: "map_of D x = Some dx"
    by (auto simp: revise_def lookup_def split: option.splits sum.splits)
  have "dx \<noteq> []"
  proof
    assume "dx = []"
    with revise_empty[OF ov] dx rev have "D1 = D" by simp
    with dx \<open>dx = []\<close> dx1 ne show False by (simp add: lookup_def)
  qed
  then obtain w ws where ws: "dx = w # ws" by (cases dx) auto
  from rev ov dx ws obtain dy where dy: "map_of D y = Some dy"
    by (auto simp: revise_def lookup_def split: option.splits sum.splits)
  from revise_defined[OF ov dx dy] rev dx1 dx dy show ?thesis
    by (auto simp: lookup_update_same)
qed

lemma map_of_Some_key: "map_of al k = Some v \<Longrightarrow> k \<in> fst ` set al"
  by (simp add: dom_map_of_conv_image_fst[symmetric] domI)

lemma revise_keys:
  assumes "revise P D x y = Inr (rm, D1)"
  shows "map fst D1 = map fst D"
proof -
  from assms obtain dx d where "map_of D x = Some dx" "D1 = AList.update x d D"
    by (auto simp: revise_def lookup_def split: option.splits sum.splits)
  moreover from this(1) have "x \<in> fst ` set D" by (rule map_of_Some_key)
  ultimately show ?thesis by (simp add: map_fst_update_key)
qed

lemma ac3_loop_Cons:
  "ac3_loop P D (arc # rest) =
     (case lookup (overlaps P) arc of
        Inl e \<Rightarrow> Inl e
      | Inr None \<Rightarrow> ac3_loop P D rest
      | Inr (Some ov) \<Rightarrow>
          (case revise P D (fst arc) (snd arc) of
             Inl e \<Rightarrow> Inl e
           | Inr (rm, D1) \<Rightarrow>
               (case lookup D1 (fst arc) of
                  Inl e \<Rightarrow> Inl e
                | Inr dx1 \<Rightarrow>
                    if dx1 = [] then Inr (False, D1)
                    else ac3_loop P D1
                           (if rm then rest @ filter (\<lambda>pa. fst arc = snd pa) (map fst (overlaps P))
                            else rest))))"
  by (simp split: sum.splits option.splits prod.splits)

lemma ac3_loop_ConsE:
  assumes "ac3_loop P D (arc # rest) = Inr (b, D')"
  obtains
    (skip) "lookup (overlaps P) arc = Inr None" "ac3_loop P D rest = Inr (b, D')"
  | (fail) ov rm where "lookup (overlaps P) arc = Inr (Some ov)"
      "revise P D (fst arc) (snd arc) = Inr (rm, D')" "lookup D' (fst arc) = Inr []" "\<not> b"
  | (continue) ov rm D1 dx1 where "lookup (overlaps P) arc = Inr (Some ov)"
      "revise P D (fst arc) (snd arc) = Inr (rm, D1)" "lookup D1 (fst arc) = Inr dx1" "dx1 \<noteq> []"
      "ac3_loop P D1
         (if rm then rest @ filter (\<lambda>pa. fst arc = snd pa) (map fst (overlaps P)) else rest)
       = Inr (b, D')"
proof (cases "lookup (overlaps P) arc")
  case (Inl e)
  with assms show ?thesis by (simp add: ac3_loop_Cons)
next
  case ov: (Inr ov)
  show ?thesis
  proof (cases ov)
    case None
    with ov assms skip show ?thesis by (simp add: ac3_loop_Cons)
  next
    case (Some k)
    show ?thesis
    proof (cases "revise P D (fst arc) (snd arc)")
      case (Inl e)
      with ov Some assms show ?thesis by (simp add: ac3_loop_Cons)
    next
      case (Inr r)
      obtain rm D1 where r: "r = (rm, D1)" by (cases r)
      show ?thesis
      proof (cases "lookup D1 (fst arc)")
        case (Inl e)
        with ov Some Inr r assms show ?thesis by (simp add: ac3_loop_Cons)
      next
        case dx: (Inr dx1)
        show ?thesis
        proof (cases "dx1 = []")
          case True
          with ov Some Inr r dx assms have "D' = D1" "\<not> b" by (simp_all add: ac3_loop_Cons)
          with ov Some Inr r dx True fail show ?thesis by simp
        next
          case False
          with ov Some Inr r dx assms have
            "ac3_loop P D1
              (if rm then rest @ filter (\<lambda>pa. fst arc = snd pa) (map fst (overlaps P)) else rest)
             = Inr (b, D')"
            by (simp add: ac3_loop_Cons del: ac3_loop.simps)
          with ov Some Inr r dx False continue show ?thesis by simp
        qed
      qed
    qed
  qed
qed

lemma ac3_loop_invariant:
  assumes "ac3_loop P D q = Inr (b, D')" and "I D q"
    and Iskip: "\<And>D arc rest. I D (arc # rest) \<Longrightarrow> lookup (overlaps P) arc = Inr None \<Longrightarrow> I D rest"
    and Istep: "\<And>D arc rest ov rm D1 dx1. I D (arc # rest) \<Longrightarrow>
        lookup (overlaps P) arc = Inr (Some ov) \<Longrightarrow>
        revise P D (fst arc) (snd arc) = Inr (rm, D1) \<Longrightarrow>
        lookup D1 (fst arc) = Inr dx1 \<Longrightarrow> dx1 \<noteq> [] \<Longrightarrow>
        I D1 (if rm then rest @ filter (\<lambda>pa. fst arc = snd pa) (map fst (overlaps P)) else rest)"
  shows "if b then I D' [] else \<exists>x. lookup D' x = Inr []"
  using assms(1,2)
proof (induction "(total_size D, length q)" arbitrary: D q rule: less_induct)
  case less
  show ?case
  proof (cases q)
    case Nil
    with less.prems show ?thesis by simp
  next
    case (Cons arc rest)
    from less.prems(1)[unfolded Cons] show ?thesis
    proof (cases rule: ac3_loop_ConsE)
      case skip
      have "(total_size D, length rest) < (total_size D, length q)" using Cons by simp
      from less.hyps[OF this skip(2) Iskip[OF less.prems(2)[unfolded Cons] skip(1)]]
      show ?thesis .
    next
      case (fail ov rm)
      then show ?thesis by auto
    next
      case (continue ov rm D1 dx1)
      let ?q1 = "if rm then rest @ filter (\<lambda>pa. fst arc = snd pa) (map fst (overlaps P))
                 else rest"
      have "(total_size D1, length ?q1) < (total_size D, length q)"
      proof (cases rm)
        case True
        with revise_shrinks[of P D "fst arc" "snd arc" D1] continue(2) show ?thesis by simp
      next
        case False
        with revise_unchanged[of P D "fst arc" "snd arc" D1] continue(2) Cons show ?thesis
          by simp
      qed
      from less.hyps[OF this continue(5)
          Istep[OF less.prems(2)[unfolded Cons] continue(1,2,3,4)]]
      show ?thesis .
    qed
  qed
qed

lemma ac3_loop_keys:
  "ac3_loop P D q = Inr (b, D') \<Longrightarrow> map fst D' = map fst D"
proof (induction P D q rule: ac3_loop.induct)
  case (1 P doms)
  then show ?case by simp
next
  case (2 P doms arc arc_queue)
  show ?case
  proof (cases "lookup (overlaps P) arc")
    case (Inl e)
    with "2.prems" show ?thesis by simp
  next
    case ov: (Inr ov)
    show ?thesis
    proof (cases ov)
      case None
      with ov "2.prems" "2.IH"(1) show ?thesis by simp
    next
      case (Some k)
      show ?thesis
      proof (cases "revise P doms (fst arc) (snd arc)")
        case (Inl e)
        with ov Some "2.prems" show ?thesis by simp
      next
        case (Inr r)
        obtain rm D1 where r: "r = (rm, D1)" by (cases r)
        note keys = revise_keys[OF Inr[unfolded r]]
        show ?thesis
        proof (cases "lookup D1 (fst arc)")
          case (Inl e)
          with ov Some Inr r "2.prems" show ?thesis by simp
        next
          case dx: (Inr dx1)
          show ?thesis
          proof (cases "length dx1 = 0")
            case True
            with ov Some Inr r dx "2.prems" keys show ?thesis by simp
          next
            case False
            show ?thesis
            proof (cases rm)
              case True
              from "2.IH"(2)[OF ov Some Inr r[symmetric] dx False True] ov Some Inr r dx False True
                "2.prems" keys
              show ?thesis by simp
            next
              case rmF: False
              from "2.IH"(3)[OF ov Some Inr r[symmetric] dx False rmF] ov Some Inr r dx False rmF
                "2.prems" keys
              show ?thesis by simp
            qed
          qed
        qed
      qed
    qed
  qed
qed

lemma ac3_loop_total:
  assumes "I D q"
    and Iskip: "\<And>D arc rest. I D (arc # rest) \<Longrightarrow> lookup (overlaps P) arc = Inr None \<Longrightarrow> I D rest"
    and Istep: "\<And>D arc rest ov rm D1 dx1. I D (arc # rest) \<Longrightarrow>
        lookup (overlaps P) arc = Inr (Some ov) \<Longrightarrow>
        revise P D (fst arc) (snd arc) = Inr (rm, D1) \<Longrightarrow>
        lookup D1 (fst arc) = Inr dx1 \<Longrightarrow> dx1 \<noteq> [] \<Longrightarrow>
        I D1 (if rm then rest @ filter (\<lambda>pa. fst arc = snd pa) (map fst (overlaps P)) else rest)"
    and Iprog: "\<And>D arc rest. I D (arc # rest) \<Longrightarrow>
        lookup (overlaps P) arc = Inr None \<or>
        (\<exists>ov rm D1 dx1. lookup (overlaps P) arc = Inr (Some ov) \<and>
           revise P D (fst arc) (snd arc) = Inr (rm, D1) \<and>
           lookup D1 (fst arc) = Inr dx1 \<and> dx1 \<noteq> [])"
  shows "\<exists>D'. ac3_loop P D q = Inr (True, D') \<and> I D' []"
  using assms(1)
proof (induction "(total_size D, length q)" arbitrary: D q rule: less_induct)
  case less
  show ?case
  proof (cases q)
    case Nil
    with less.prems show ?thesis by simp
  next
    case (Cons arc rest)
    note I = less.prems[unfolded Cons]
    from Iprog[OF I] show ?thesis
    proof
      assume ov: "lookup (overlaps P) arc = Inr None"
      have "(total_size D, length rest) < (total_size D, length q)" using Cons by simp
      from less.hyps[OF this Iskip[OF I ov]] ov Cons show ?thesis
        by (simp add: ac3_loop_Cons del: ac3_loop.simps)
    next
      assume "\<exists>ov rm D1 dx1. lookup (overlaps P) arc = Inr (Some ov) \<and>
           revise P D (fst arc) (snd arc) = Inr (rm, D1) \<and>
           lookup D1 (fst arc) = Inr dx1 \<and> dx1 \<noteq> []"
      then obtain ov rm D1 dx1 where
        ov: "lookup (overlaps P) arc = Inr (Some ov)" and
        rev: "revise P D (fst arc) (snd arc) = Inr (rm, D1)" and
        dx1: "lookup D1 (fst arc) = Inr dx1" "dx1 \<noteq> []"
        by blast
      let ?q1 = "if rm then rest @ filter (\<lambda>pa. fst arc = snd pa) (map fst (overlaps P))
                 else rest"
      have "(total_size D1, length ?q1) < (total_size D, length q)"
      proof (cases rm)
        case True
        with revise_shrinks[of P D "fst arc" "snd arc" D1] rev show ?thesis by simp
      next
        case False
        with revise_unchanged[of P D "fst arc" "snd arc" D1] rev Cons show ?thesis by simp
      qed
      from less.hyps[OF this Istep[OF I ov rev dx1]] ov rev dx1 Cons show ?thesis
        by (simp add: ac3_loop_Cons del: ac3_loop.simps)
    qed
  qed
qed

lemma ac3_inv_skip:
  assumes "ac3_inv P D (arc # rest)" and "lookup (overlaps P) arc = Inr None"
  shows "ac3_inv P D rest"
proof -
  from assms(2) have "map_of (overlaps P) arc = Some None"
    by (simp add: lookup_def split: option.splits)
  then have "arc_ok P D arc" "\<not> (\<exists>k. map_of (overlaps P) arc = Some (Some k))"
    by (simp_all add: arc_ok_def)
  with assms(1) show ?thesis unfolding ac3_inv_def by auto
qed

lemma filter_same: "\<forall>x\<in>set xs. P x \<Longrightarrow> filter P xs = xs"
  by (induction xs) auto

lemma ac3_inv_step:
  assumes irr: "\<forall>((x, y), ov)\<in>set (overlaps P). x \<noteq> y"
    and inv: "ac3_inv P D (arc # rest)"
    and ov: "lookup (overlaps P) arc = Inr (Some ov)"
    and rev: "revise P D (fst arc) (snd arc) = Inr (rm, D1)"
    and dx1: "lookup D1 (fst arc) = Inr dx1" "dx1 \<noteq> []"
  shows "ac3_inv P D1
     (if rm then rest @ filter (\<lambda>pa. fst arc = snd pa) (map fst (overlaps P)) else rest)"
proof -
  obtain x y where arc: "arc = (x, y)" by (cases arc)
  obtain kx ky where k: "ov = (kx, ky)" by (cases ov)
  from ov have mo: "map_of (overlaps P) (x, y) = Some (Some (kx, ky))"
    by (simp add: lookup_def arc k split: option.splits)
  then have "((x, y), Some (kx, ky)) \<in> set (overlaps P)" by (rule map_of_SomeD)
  with irr have xy: "x \<noteq> y" by auto
  from revise_step[OF rev[unfolded arc fst_conv snd_conv] mo dx1[unfolded arc fst_conv]]
  obtain dx dy where
    dx: "map_of D x = Some dx" and dy: "map_of D y = Some dy" and
    filt: "dx1 = filter (\<lambda>wx. \<exists>wy\<in>set dy. agrees kx ky wx wy) dx" and
    D1: "D1 = AList.update x dx1 D" and
    rm: "rm = (\<exists>wx\<in>set dx. \<not> (\<exists>wy\<in>set dy. agrees kx ky wx wy))"
    by blast
  let ?q1 = "if rm then rest @ filter (\<lambda>pa. fst arc = snd pa) (map fst (overlaps P)) else rest"
  have D1x: "map_of D1 x = Some dx1" by (simp add: D1 update_conv')
  have D1o: "map_of D1 v = map_of D v" if "v \<noteq> x" for v using that by (simp add: D1 update_conv')
  have same: "D1 = D" if "\<not> rm"
  proof -
    from that rm have "dx1 = dx" unfolding filt by (intro filter_same) auto
    with dx show ?thesis by (simp add: D1 update_triv)
  qed
  have sub: "set dx1 \<subseteq> set dx" by (auto simp: filt)
  have this_ok: "arc_ok P D1 arc"
    using mo D1x D1o[of y] xy dy by (auto simp: arc_ok_def arc filt)
  have ok: "arc' \<in> set ?q1 \<or> arc_ok P D1 arc'"
    if mem: "arc' \<in> set (map fst (overlaps P))" for arc'
  proof (cases "arc' = arc")
    case True
    with this_ok show ?thesis by simp
  next
    case False
    with inv mem have old: "arc' \<in> set rest \<or> arc_ok P D arc'" unfolding ac3_inv_def by auto
    show ?thesis
    proof (cases rm)
      case rmF: False
      with old same show ?thesis by auto
    next
      case True
      obtain u v where uv: "arc' = (u, v)" by (cases arc')
      show ?thesis
      proof (cases "arc' \<in> set rest \<or> v = x")
        case True
        with \<open>rm\<close> mem uv arc show ?thesis by auto
      next
        case False
        with old have okD: "arc_ok P D (u, v)" and vx: "v \<noteq> x" by (auto simp: uv)
        have "arc_ok P D1 (u, v)"
        proof (cases "u = x")
          case True
          with okD vx D1x D1o[OF vx] dx sub show ?thesis
            by (auto simp: arc_ok_def split: option.splits)
        next
          case False
          with okD vx D1o show ?thesis by (simp add: arc_ok_def)
        qed
        then show ?thesis by (simp add: uv)
      qed
    qed
  qed
  have ne: "arc' \<in> set ?q1 \<or>
      (\<exists>dx dy. map_of D1 (fst arc') = Some dx \<and> dx \<noteq> [] \<and> map_of D1 (snd arc') = Some dy)"
    if mem: "arc' \<in> set (map fst (overlaps P))"
      and def: "\<exists>k. map_of (overlaps P) arc' = Some (Some k)" for arc'
  proof (cases "arc' = arc")
    case True
    with D1x D1o[of y] xy dy dx1(2) show ?thesis by (auto simp: arc)
  next
    case False
    with inv mem def have old: "arc' \<in> set rest \<or>
      (\<exists>dx dy. map_of D (fst arc') = Some dx \<and> dx \<noteq> [] \<and> map_of D (snd arc') = Some dy)"
      unfolding ac3_inv_def by auto
    have keep: "\<exists>dx dy. map_of D1 (fst arc') = Some dx \<and> dx \<noteq> [] \<and> map_of D1 (snd arc') = Some dy"
      if "\<exists>dx dy. map_of D (fst arc') = Some dx \<and> dx \<noteq> [] \<and> map_of D (snd arc') = Some dy"
      using that D1x D1o dx1(2) by (cases "fst arc' = x"; cases "snd arc' = x") auto
    from old keep show ?thesis by auto
  qed
  from ok ne show ?thesis unfolding ac3_inv_def by blast
qed

lemma ac3_inv_init: "ac3_inv P D (map fst (overlaps P))"
  by (simp add: ac3_inv_def)

section \<open>AC-3: the result\<close>

lemma ac3_success:
  assumes irr: "\<forall>((x, y), ov)\<in>set (overlaps P). x \<noteq> y"
    and res: "ac3 P D None = Inr (True, D')"
    and ov: "map_of (overlaps P) (x, y) = Some (Some (kx, ky))"
  shows "\<exists>dx dy. map_of D' x = Some dx \<and> map_of D' y = Some dy \<and> dx \<noteq> [] \<and>
     (\<forall>wx\<in>set dx. \<exists>wy\<in>set dy. agrees kx ky wx wy)"
proof -
  from res have loop: "ac3_loop P D (map fst (overlaps P)) = Inr (True, D')"
    by (simp add: ac3_def)
  have "if True then ac3_inv P D' [] else \<exists>x. lookup D' x = Inr []"
  proof (rule ac3_loop_invariant[where I = "ac3_inv P", OF loop])
    show "ac3_inv P D (map fst (overlaps P))" by (rule ac3_inv_init)
  qed (erule (1) ac3_inv_skip, erule (4) ac3_inv_step[OF irr])
  then have inv: "ac3_inv P D' []" by simp
  from ov have "(x, y) \<in> set (map fst (overlaps P))"
    using map_of_Some_key[OF ov] by simp
  with inv ov have "arc_ok P D' (x, y)"
    and "\<exists>dx dy. map_of D' x = Some dx \<and> dx \<noteq> [] \<and> map_of D' y = Some dy"
    unfolding ac3_inv_def by force+
  with ov show ?thesis by (auto simp: arc_ok_def)
qed

text \<open>
  C5. The claim: when \<^verbatim>\<open>ac3()\<close> returns \<^verbatim>\<open>True\<close>, every arc with a defined overlap is
  consistent and every variable's domain is non-empty. The first half holds, and so does
  the second for every variable that has a defined overlap (\<open>ac3_success\<close>). But
  \<^verbatim>\<open>ac3\<close> looks at a domain only when it pops an arc that starts at its variable: for
  the isolated slot whose domain node consistency has emptied, the queue is empty and
  \<^verbatim>\<open>ac3\<close> returns \<^verbatim>\<open>True\<close> with the empty domain.
\<close>

theorem ac3_true_with_empty_domain:
  "ac3 ex_single (enforce_node_consistency (init_domains ex_single)) None =
     Inr (True, [(ex_slot, [])])"
  by (simp add: ac3_def ex_single_def init_domains_def enforce_node_consistency_def
      remove_each_def ex_slot_def)

section \<open>The search draws its words from the domains\<close>

lemma value_elimination_dict_keys:
  "value_elimination_dict P D asg var vs = Inr d \<Longrightarrow> map fst d = vs"
  by (induction vs arbitrary: d) (auto split: sum.splits)

lemma order_domain_values_set:
  assumes "order_domain_values P D var asg = Inr vals"
  shows "\<exists>d. map_of D var = Some d \<and> set vals = set d"
proof -
  from assms obtain d e where d: "map_of D var = Some d"
    and e: "value_elimination_dict P D asg var d = Inr e"
    and vals: "vals = map fst (sort_key snd e)"
    by (auto simp: order_domain_values_def lookup_def split: sum.splits option.splits)
  have "set vals = fst ` set e" by (simp add: vals)
  also have "\<dots> = set (map fst e)" by simp
  also have "\<dots> = set d" by (simp only: value_elimination_dict_keys[OF e])
  finally show ?thesis using d by simp
qed

lemma backtrack_from_domains:
  "backtrack P D asg = Inr (Some a) \<Longrightarrow> map_of a v = Some (Some w) \<Longrightarrow>
   map_of (start_assignment P asg) v = Some (Some w) \<or>
   (\<exists>d. map_of D v = Some d \<and> w \<in> set d)"
proof (induction "unassigned (start_assignment P asg)" arbitrary: asg rule: less_induct)
  case less
  define asg0 where "asg0 = start_assignment P asg"
  note unf = backtrack_unfold[of P D asg, folded asg0_def]
  show ?case
  proof (cases "assignment_complete asg0")
    case True
    with less.prems unf show ?thesis by (simp add: asg0_def)
  next
    case False
    with less.prems(1) unf obtain var vals where
      sel: "select_unassigned_variable asg0 = Some var" and
      ord: "order_domain_values P D var asg0 = Inr vals" and
      tr: "try_each
              (\<lambda>val. case consistent P (AList.update var (Some val) asg0) of
                       Inl e \<Rightarrow> Inl e
                     | Inr False \<Rightarrow> Inr None
                     | Inr True \<Rightarrow> backtrack P D (AList.update var (Some val) asg0))
              vals = Inr (Some a)"
      by (auto split: option.splits sum.splits)
    from try_each_Some[OF tr] obtain val where
      val: "val \<in> set vals" and
      f: "(case consistent P (AList.update var (Some val) asg0) of
             Inl e \<Rightarrow> Inl e
           | Inr False \<Rightarrow> Inr None
           | Inr True \<Rightarrow> backtrack P D (AList.update var (Some val) asg0)) = Inr (Some a)"
      by blast
    have con: "consistent P (AList.update var (Some val) asg0) = Inr True"
      using f by (cases "consistent P (AList.update var (Some val) asg0)") (auto split: bool.splits)
    with f have rec: "backtrack P D (AList.update var (Some val) asg0) = Inr (Some a)"
      by simp
    have "unassigned (start_assignment P (AList.update var (Some val) asg0))
        < unassigned (start_assignment P asg)"
      using unassigned_update_less[OF sel] by (simp add: asg0_def)
    from less.hyps[OF this rec less.prems(2)]
    have "map_of (AList.update var (Some val) asg0) v = Some (Some w) \<or>
       (\<exists>d. map_of D v = Some d \<and> w \<in> set d)"
      by simp
    with order_domain_values_set[OF ord] val show ?thesis
      by (cases "v = var") (auto simp: update_conv' asg0_def)
  qed
qed

lemma ac3_loop_false_empty:
  assumes "ac3_loop P D q = Inr (False, D')"
  shows "\<exists>x. lookup D' x = Inr []"
  using ac3_loop_invariant[where I = "\<lambda>D q. True", OF assms] by simp

lemma keys_enforce_init:
  "map fst (enforce_node_consistency (init_domains P)) = variables P"
  by (simp add: enforce_node_consistency_def init_domains_def comp_def case_prod_unfold)

lemma map_of_start_empty:
  "v \<in> set (variables P) \<Longrightarrow> map_of (start_assignment P []) v = Some None"
  by (simp add: start_assignment_def map_of_map_restrict)

lemma backtrack_empty_domain:
  assumes x: "x \<in> set (variables P)" and empty: "map_of D x = Some []"
  shows "backtrack P D [] \<noteq> Inr (Some a)"
proof
  assume bt: "backtrack P D [] = Inr (Some a)"
  from backtrack_sound[OF bt consistent_start]
  have comp: "assignment_complete a" and keys: "map fst a = variables P"
    by (simp_all add: start_assignment_def comp_def)
  from x keys have xk: "x \<in> set (map fst a)" by simp
  then obtain o' where o': "map_of a x = Some o'"
    by (cases "map_of a x") (auto simp: map_of_eq_None_iff)
  from comp xk have "lookup a x \<noteq> Inr None"
    by (auto simp: assignment_complete_def list_all_iff)
  with o' obtain w where w: "map_of a x = Some (Some w)" by (cases o') (auto simp: lookup_def)
  from backtrack_from_domains[OF bt w] map_of_start_empty[OF x] empty show False by simp
qed

section \<open>Search completeness\<close>

lemma check_neighbors_safe:
  assumes "\<forall>n\<in>set ns. \<exists>o'. map_of a n = Some o'"
    and "\<forall>n\<in>set ns. \<exists>ov. map_of (overlaps P) (var, n) = Some ov"
    and "\<forall>n\<in>set ns. \<forall>nw k0 k1. map_of a n = Some (Some nw) \<longrightarrow>
           map_of (overlaps P) (var, n) = Some (Some (k0, k1)) \<longrightarrow>
           k0 < length word \<and> k1 < length nw"
  shows "check_neighbors P a var word ns =
     Inr (\<forall>n\<in>set ns. \<forall>nw k0 k1. map_of a n = Some (Some nw) \<longrightarrow>
            map_of (overlaps P) (var, n) = Some (Some (k0, k1)) \<longrightarrow> word ! k0 = nw ! k1)"
  using assms
proof (induction ns)
  case Nil
  then show ?case by simp
next
  case (Cons n ns)
  from Cons.prems obtain o' ov where o': "map_of a n = Some o'"
    and ov: "map_of (overlaps P) (var, n) = Some ov" by auto
  have IH: "check_neighbors P a var word ns =
     Inr (\<forall>n\<in>set ns. \<forall>nw k0 k1. map_of a n = Some (Some nw) \<longrightarrow>
            map_of (overlaps P) (var, n) = Some (Some (k0, k1)) \<longrightarrow> word ! k0 = nw ! k1)"
    using Cons by simp
  show ?case
  proof (cases o')
    case None
    with o' IH show ?thesis by (simp add: lookup_def)
  next
    case nw: (Some nw)
    show ?thesis
    proof (cases ov)
      case None
      with o' nw ov IH show ?thesis by (simp add: lookup_def)
    next
      case (Some k)
      obtain k0 k1 where k: "k = (k0, k1)" by (cases k)
      from Cons.prems(3) o' nw ov Some k have "k0 < length word" "k1 < length nw" by auto
      with o' nw ov Some k IH show ?thesis by (auto simp: lookup_def)
    qed
  qed
qed

lemma consistent_loop_safe:
  assumes "\<forall>var\<in>set vs. \<exists>o'. map_of a var = Some o'"
    and "\<forall>var\<in>set vs. \<forall>w. map_of a var = Some (Some w) \<longrightarrow> int (length w) = var_length var \<longrightarrow>
       (\<forall>n\<in>set (neighbors P var). (\<exists>o'. map_of a n = Some o') \<and>
          (\<exists>ov. map_of (overlaps P) (var, n) = Some ov) \<and>
          (\<forall>nw k0 k1. map_of a n = Some (Some nw) \<longrightarrow>
             map_of (overlaps P) (var, n) = Some (Some (k0, k1)) \<longrightarrow>
             k0 < length w \<and> k1 < length nw))"
  shows "consistent_loop P a vs = Inr (\<forall>var\<in>set vs. var_fine P a var)"
  using assms
proof (induction vs)
  case Nil
  then show ?case by simp
next
  case (Cons var vs)
  from Cons.prems obtain o' where o': "map_of a var = Some o'" by auto
  have IH: "consistent_loop P a vs = Inr (\<forall>var\<in>set vs. var_fine P a var)"
    using Cons by simp
  show ?case
  proof (cases o')
    case None
    with o' IH show ?thesis by (simp add: lookup_def var_fine_def)
  next
    case (Some w)
    show ?thesis
    proof (cases "list_ex (\<lambda>cv. cv \<noteq> var \<and> lookup a cv = Inr (Some w)) (map fst a) \<or>
        int (length w) \<noteq> var_length var")
      case True
      with o' Some show ?thesis by (auto simp: lookup_def var_fine_def)
    next
      case False
      with Cons.prems(2) o' Some have
        safe: "\<forall>n\<in>set (neighbors P var). (\<exists>o'. map_of a n = Some o') \<and>
          (\<exists>ov. map_of (overlaps P) (var, n) = Some ov) \<and>
          (\<forall>nw k0 k1. map_of a n = Some (Some nw) \<longrightarrow>
             map_of (overlaps P) (var, n) = Some (Some (k0, k1)) \<longrightarrow>
             k0 < length w \<and> k1 < length nw)"
        by simp
      define ok where "ok \<longleftrightarrow>
        (\<forall>n\<in>set (neighbors P var). \<forall>nw k0 k1. map_of a n = Some (Some nw) \<longrightarrow>
            map_of (overlaps P) (var, n) = Some (Some (k0, k1)) \<longrightarrow> w ! k0 = nw ! k1)"
      have cn: "check_neighbors P a var w (neighbors P var) = Inr ok"
        unfolding ok_def by (rule check_neighbors_safe) (use safe in blast)+
      have vf: "var_fine P a var = ok"
        using False o' Some by (simp add: var_fine_def ok_def)
      show ?thesis
      proof (cases ok)
        case True
        with vf cn o' Some False IH show ?thesis by (simp add: lookup_def)
      next
        case nf: False
        with vf cn o' Some False show ?thesis by (simp add: lookup_def)
      qed
    qed
  qed
qed

lemma consistent_safe:
  assumes wf: "wf_crossword P" and keys: "map fst a = variables P"
    and safe: "index_safe P D" and dom: "from_domains P D a"
  shows "consistent P a = Inr (\<forall>var\<in>set (variables P). var_fine P a var)"
proof -
  have key: "\<exists>o'. map_of a v = Some o'" if "v \<in> set (variables P)" for v
  proof -
    from that keys have "v \<in> fst ` set a" by (metis list.set_map)
    then show ?thesis by (cases "map_of a v") (auto simp: map_of_eq_None_iff)
  qed
  have nb: "(\<exists>o'. map_of a n = Some o') \<and> (\<exists>ov. map_of (overlaps P) (var, n) = Some ov) \<and>
      (\<forall>nw k0 k1. map_of a n = Some (Some nw) \<longrightarrow>
         map_of (overlaps P) (var, n) = Some (Some (k0, k1)) \<longrightarrow> k0 < length w \<and> k1 < length nw)"
    if var: "var \<in> set (variables P)" and len: "int (length w) = var_length var"
      and n: "n \<in> set (neighbors P var)" for var w n
  proof -
    from n obtain k where k: "map_of (overlaps P) (var, n) = Some (Some k)"
      by (auto simp: neighbors_iff[OF wf])
    then have mem: "((var, n), Some k) \<in> set (overlaps P)" by (rule map_of_SomeD)
    note o = wf_overlapD[OF wf mem]
    have "k0 < length w \<and> k1 < length nw"
      if nw: "map_of a n = Some (Some nw)" and kk: "k = (k0, k1)" for nw k0 k1
    proof -
      from o(6)[of k0 k1] kk len have "k0 < length w" by simp
      from o(5) kk have "map_of (overlaps P) (n, var) = Some (Some (k1, k0))" by simp
      moreover from dom o(2) nw obtain d where "map_of D n = Some d" "nw \<in> set d"
        unfolding from_domains_def by blast
      ultimately have "k1 < length nw" using safe unfolding index_safe_def by blast
      with \<open>k0 < length w\<close> show ?thesis by simp
    qed
    with key[OF o(2)] k show ?thesis by auto
  qed
  show ?thesis unfolding consistent_def keys
    by (rule consistent_loop_safe) (use key nb in blast)+
qed

lemma var_fine_sub_solution:
  assumes wf: "wf_crossword P" and keys: "map fst a = variables P"
    and sol: "spec_solution P s" and ext: "extends_to P a s"
    and var: "var \<in> set (variables P)"
  shows "var_fine P a var"
  unfolding var_fine_def
proof (intro allI impI conjI ballI)
  fix w assume w: "map_of a var = Some (Some w)"
  with ext var have sw: "map_of s var = Some (Some w)" unfolding extends_to_def by blast
  show "\<not> list_ex (\<lambda>cv. cv \<noteq> var \<and> lookup a cv = Inr (Some w)) (map fst a)"
  proof
    assume "list_ex (\<lambda>cv. cv \<noteq> var \<and> lookup a cv = Inr (Some w)) (map fst a)"
    then obtain cv where cv: "cv \<in> set (variables P)" "cv \<noteq> var" "lookup a cv = Inr (Some w)"
      unfolding list_ex_iff keys by blast
    then have "map_of a cv = Some (Some w)" by (simp add: lookup_def split: option.splits)
    with ext cv(1) have "map_of s cv = Some (Some w)" unfolding extends_to_def by blast
    with sw cv(1,2) var sol show False unfolding spec_solution_def by metis
  qed
  from sol var sw show "int (length w) = var_length var"
    unfolding spec_solution_def by force
next
  fix w n nw k0 k1
  assume w: "map_of a var = Some (Some w)" and n: "n \<in> set (neighbors P var)"
    and nw: "map_of a n = Some (Some nw)"
    and k: "map_of (overlaps P) (var, n) = Some (Some (k0, k1))"
  from k have mem: "((var, n), Some (k0, k1)) \<in> set (overlaps P)" by (rule map_of_SomeD)
  note o = wf_overlapD[OF wf mem]
  from ext var w have sw: "map_of s var = Some (Some w)" unfolding extends_to_def by blast
  from ext o(2) nw have sn: "map_of s n = Some (Some nw)" unfolding extends_to_def by blast
  from sol mem have "case (Some (k0, k1), map_of s var, map_of s n) of
          (Some (kx, ky), Some (Some wx), Some (Some wy)) \<Rightarrow>
             kx < length wx \<and> ky < length wy \<and> wx ! kx = wy ! ky
        | _ \<Rightarrow> True"
    unfolding spec_solution_def by fast
  with sw sn show "w ! k0 = nw ! k1" by simp
qed

lemma ruled_out_in_ok:
  assumes "map_of (overlaps P) (var, nb) = Some (Some k)"
  shows "\<exists>n. ruled_out_in P var nb val num ws = Inr n"
  using assms
  by (induction ws arbitrary: num) (auto simp: lookup_def chars_agree_def split: prod.splits)

lemma num_ruled_out_ok:
  assumes "\<forall>nb\<in>set ns. (\<exists>o'. map_of a nb = Some o') \<and> (\<exists>d. map_of D nb = Some d) \<and>
      (\<exists>k. map_of (overlaps P) (var, nb) = Some (Some k))"
  shows "\<exists>n. num_ruled_out P D a var val num ns = Inr n"
  using assms
proof (induction ns arbitrary: num)
  case Nil
  then show ?case by simp
next
  case (Cons nb ns)
  from Cons.prems obtain o' d k where o': "map_of a nb = Some o'" and d: "map_of D nb = Some d"
    and k: "map_of (overlaps P) (var, nb) = Some (Some k)" by auto
  from Cons have IH: "\<exists>n. num_ruled_out P D a var val num' ns = Inr n" for num' by simp
  show ?case
  proof (cases o')
    case None
    from ruled_out_in_ok[OF k, of val num d] obtain n' where
      "ruled_out_in P var nb val num d = Inr n'" ..
    with None o' d IH[of n'] show ?thesis by (simp add: lookup_def)
  next
    case (Some w)
    with o' IH[of num] show ?thesis by (simp add: lookup_def)
  qed
qed

lemma value_elimination_dict_ok:
  assumes "\<forall>nb\<in>set (neighbors P var). (\<exists>o'. map_of a nb = Some o') \<and>
      (\<exists>d. map_of D nb = Some d) \<and> (\<exists>k. map_of (overlaps P) (var, nb) = Some (Some k))"
  shows "\<exists>e. value_elimination_dict P D a var vs = Inr e"
proof (induction vs)
  case Nil
  then show ?case by simp
next
  case (Cons v vs)
  from num_ruled_out_ok[OF assms, of v 0] obtain n where
    "num_ruled_out P D a var v 0 (neighbors P var) = Inr n" ..
  with Cons show ?case by auto
qed

lemma key_lookup:
  "v \<in> set (map fst al) \<Longrightarrow> \<exists>x. map_of al v = Some x"
  by (cases "map_of al v") (auto simp: map_of_eq_None_iff)

lemma order_domain_values_ok:
  assumes wf: "wf_crossword P" and keysD: "map fst D = variables P"
    and keys: "map fst a = variables P" and var: "var \<in> set (variables P)"
  shows "\<exists>vals. order_domain_values P D var a = Inr vals"
proof -
  from var keysD obtain d where d: "map_of D var = Some d" using key_lookup[of var D] by auto
  have "\<forall>nb\<in>set (neighbors P var). (\<exists>o'. map_of a nb = Some o') \<and>
      (\<exists>d. map_of D nb = Some d) \<and> (\<exists>k. map_of (overlaps P) (var, nb) = Some (Some k))"
  proof
    fix nb assume nb: "nb \<in> set (neighbors P var)"
    then have v: "nb \<in> set (variables P)" by (simp add: neighbors_def)
    from nb have "\<exists>k. map_of (overlaps P) (var, nb) = Some (Some k)"
      by (simp add: neighbors_iff[OF wf])
    with v keys keysD key_lookup[of nb a] key_lookup[of nb D]
    show "(\<exists>o'. map_of a nb = Some o') \<and> (\<exists>d. map_of D nb = Some d) \<and>
      (\<exists>k. map_of (overlaps P) (var, nb) = Some (Some k))" by simp
  qed
  from value_elimination_dict_ok[OF this, of d] obtain e where
    "value_elimination_dict P D a var d = Inr e" ..
  with d show ?thesis by (simp add: order_domain_values_def lookup_def)
qed

lemma select_None_complete:
  "select_unassigned_variable a = None \<Longrightarrow> assignment_complete a"
  by (auto simp: select_unassigned_variable_def assignment_complete_def find_None_iff
      list_all_iff)

lemma try_each_no_error:
  "\<forall>x\<in>set xs. \<exists>r. f x = Inr r \<Longrightarrow> \<exists>r. try_each f xs = Inr r"
  by (induction xs) (auto split: sum.splits option.splits)

lemma try_each_finds:
  "\<forall>x\<in>set xs. \<exists>r. f x = Inr r \<Longrightarrow> \<exists>x\<in>set xs. \<exists>r. f x = Inr (Some r) \<Longrightarrow>
   \<exists>r. try_each f xs = Inr (Some r)"
proof (induction xs)
  case Nil
  then show ?case by simp
next
  case (Cons x xs)
  from Cons.prems(1) obtain r where r: "f x = Inr r" by auto
  show ?case
  proof (cases r)
    case None
    with r Cons show ?thesis by auto
  next
    case (Some a)
    with r show ?thesis by simp
  qed
qed

lemma from_domains_update:
  assumes "from_domains P D a" and "map_of D var = Some d" and "val \<in> set d"
  shows "from_domains P D (AList.update var (Some val) a)"
  using assms unfolding from_domains_def by (auto simp: update_conv')

lemma extends_to_update:
  assumes "extends_to P a s" and "map_of s var = Some (Some w)"
  shows "extends_to P (AList.update var (Some w) a) s"
  using assms unfolding extends_to_def by (auto simp: update_conv')

lemma backtrack_no_error:
  assumes wf: "wf_crossword P" and keysD: "map fst D = variables P" and safe: "index_safe P D"
  shows "map fst (start_assignment P asg) = variables P \<Longrightarrow>
     from_domains P D (start_assignment P asg) \<Longrightarrow> \<exists>r. backtrack P D asg = Inr r"
proof (induction "unassigned (start_assignment P asg)" arbitrary: asg rule: less_induct)
  case less
  define asg0 where "asg0 = start_assignment P asg"
  note unf = backtrack_unfold[of P D asg, folded asg0_def]
  from less.prems have keys: "map fst asg0 = variables P" and dom: "from_domains P D asg0"
    by (simp_all add: asg0_def)
  show ?case
  proof (cases "assignment_complete asg0")
    case True
    with unf show ?thesis by simp
  next
    case False
    with select_None_complete[of asg0] obtain var where
      sel: "select_unassigned_variable asg0 = Some var" by auto
    from select_Some_key[OF sel] keys have var: "var \<in> set (variables P)"
      by (metis list.set_map)
    from order_domain_values_ok[OF wf keysD keys var] obtain vals where
      ord: "order_domain_values P D var asg0 = Inr vals" ..
    from order_domain_values_set[OF ord] obtain d where
      d: "map_of D var = Some d" "set vals = set d" by blast
    let ?f = "\<lambda>val. case consistent P (AList.update var (Some val) asg0) of
                       Inl e \<Rightarrow> Inl e
                     | Inr False \<Rightarrow> Inr None
                     | Inr True \<Rightarrow> backtrack P D (AList.update var (Some val) asg0)"
    have "\<forall>val\<in>set vals. \<exists>r. ?f val = Inr r"
    proof
      fix val assume val: "val \<in> set vals"
      let ?a = "AList.update var (Some val) asg0"
      have k: "map fst ?a = variables P"
        using select_Some_key[OF sel] keys by (simp add: map_fst_update_key)
      have fd: "from_domains P D ?a"
        using from_domains_update[OF dom d(1)] val d(2) by simp
      note con = consistent_safe[OF wf k safe fd]
      show "\<exists>r. ?f val = Inr r"
      proof (cases "\<forall>v\<in>set (variables P). var_fine P ?a v")
        case True
        have "unassigned (start_assignment P ?a) < unassigned (start_assignment P asg)"
          using unassigned_update_less[OF sel] by (simp add: asg0_def)
        from less.hyps[OF this] k fd obtain r where "backtrack P D ?a = Inr r" by auto
        with con True show ?thesis by simp
      next
        case False
        with con show ?thesis by simp
      qed
    qed
    from try_each_no_error[OF this] False sel ord unf show ?thesis by simp
  qed
qed

lemma backtrack_complete:
  assumes wf: "wf_crossword P" and keysD: "map fst D = variables P" and safe: "index_safe P D"
    and sol: "spec_solution P s" and sD: "from_domains P D s"
  shows "map fst (start_assignment P asg) = variables P \<Longrightarrow>
     from_domains P D (start_assignment P asg) \<Longrightarrow>
     extends_to P (start_assignment P asg) s \<Longrightarrow> \<exists>a. backtrack P D asg = Inr (Some a)"
proof (induction "unassigned (start_assignment P asg)" arbitrary: asg rule: less_induct)
  case less
  define asg0 where "asg0 = start_assignment P asg"
  note unf = backtrack_unfold[of P D asg, folded asg0_def]
  from less.prems have keys: "map fst asg0 = variables P" and dom: "from_domains P D asg0"
    and ext: "extends_to P asg0 s"
    by (simp_all add: asg0_def)
  show ?case
  proof (cases "assignment_complete asg0")
    case True
    with unf show ?thesis by simp
  next
    case False
    with select_None_complete[of asg0] obtain var where
      sel: "select_unassigned_variable asg0 = Some var" by auto
    from select_Some_key[OF sel] keys have var: "var \<in> set (variables P)"
      by (metis list.set_map)
    from order_domain_values_ok[OF wf keysD keys var] obtain vals where
      ord: "order_domain_values P D var asg0 = Inr vals" ..
    from order_domain_values_set[OF ord] obtain d where
      d: "map_of D var = Some d" "set vals = set d" by blast
    let ?f = "\<lambda>val. case consistent P (AList.update var (Some val) asg0) of
                       Inl e \<Rightarrow> Inl e
                     | Inr False \<Rightarrow> Inr None
                     | Inr True \<Rightarrow> backtrack P D (AList.update var (Some val) asg0)"
    have keys': "map fst (AList.update var (Some val) asg0) = variables P" for val
      using select_Some_key[OF sel] keys by (simp add: map_fst_update_key)
    have dom': "from_domains P D (AList.update var (Some val) asg0)" if "val \<in> set vals" for val
      using from_domains_update[OF dom d(1)] that d(2) by simp
    have less': "unassigned (start_assignment P (AList.update var (Some val) asg0))
        < unassigned (start_assignment P asg)" for val
      using unassigned_update_less[OF sel] by (simp add: asg0_def)
    have no_err: "\<forall>val\<in>set vals. \<exists>r. ?f val = Inr r"
    proof
      fix val assume val: "val \<in> set vals"
      let ?a = "AList.update var (Some val) asg0"
      note con = consistent_safe[OF wf keys' safe dom'[OF val]]
      show "\<exists>r. ?f val = Inr r"
      proof (cases "\<forall>v\<in>set (variables P). var_fine P ?a v")
        case True
        from backtrack_no_error[OF wf keysD safe, of ?a] keys' dom'[OF val]
        obtain r where "backtrack P D ?a = Inr r" by auto
        with con True show ?thesis by simp
      next
        case False
        with con show ?thesis by simp
      qed
    qed
    from sol var obtain w where w: "map_of s var = Some (Some w)"
      unfolding spec_solution_def by (fastforce split: option.splits)
    with sD var d have wv: "w \<in> set vals" unfolding from_domains_def by fastforce
    let ?a = "AList.update var (Some w) asg0"
    have ext': "extends_to P ?a s" by (rule extends_to_update[OF ext w])
    have "\<forall>v\<in>set (variables P). var_fine P ?a v"
      using var_fine_sub_solution[OF wf keys' sol ext'] by blast
    with consistent_safe[OF wf keys' safe dom'[OF wv]]
    have con: "consistent P ?a = Inr True" by simp
    from less.hyps[OF less'] keys' dom'[OF wv] ext'
    obtain a where "backtrack P D ?a = Inr (Some a)" by auto
    with con have "?f w = Inr (Some a)" by simp
    with wv have "\<exists>val\<in>set vals. \<exists>r. ?f val = Inr (Some r)" by blast
    from try_each_finds[OF no_err this] False sel ord unf show ?thesis by simp
  qed
qed

lemma map_of_enforce_init:
  assumes "v \<in> set (variables P)"
  shows "map_of (enforce_node_consistency (init_domains P)) v =
     Some (filter (\<lambda>w. \<not> int (length w) > var_length v) (words P))"
proof -
  have rem: "remove_each (filter (\<lambda>val. int (length val) > n) ws) ws =
      filter (\<lambda>w. \<not> int (length w) > n) ws" for n ws
    unfolding remove_each_filter by (rule filter_cong) auto
  have "enforce_node_consistency (init_domains P) =
      map (\<lambda>var. (var, filter (\<lambda>w. \<not> int (length w) > var_length var) (words P))) (variables P)"
    unfolding enforce_node_consistency_def init_domains_def
    by (simp add: comp_def rem)
  with assms show ?thesis by (simp add: map_of_map_restrict)
qed

lemma wf_irreflexive:
  "wf_crossword P \<Longrightarrow> \<forall>((x, y), ov)\<in>set (overlaps P). x \<noteq> y"
  unfolding wf_crossword_def list_all_iff by fast

lemma solution_supports:
  assumes sol: "spec_solution P s" and wf: "wf_crossword P"
    and ov: "map_of (overlaps P) (x, y) = Some (Some (kx, ky))"
  shows "\<exists>wx wy. map_of s x = Some (Some wx) \<and> map_of s y = Some (Some wy) \<and>
     agrees kx ky wx wy"
proof -
  from ov have mem: "((x, y), Some (kx, ky)) \<in> set (overlaps P)" by (rule map_of_SomeD)
  note o = wf_overlapD[OF wf mem]
  from sol o(1) obtain wx where wx: "map_of s x = Some (Some wx)"
    unfolding spec_solution_def by (fastforce split: option.splits)
  from sol o(2) obtain wy where wy: "map_of s y = Some (Some wy)"
    unfolding spec_solution_def by (fastforce split: option.splits)
  from sol mem have "case (Some (kx, ky), map_of s x, map_of s y) of
          (Some (kx, ky), Some (Some wx), Some (Some wy)) \<Rightarrow>
             kx < length wx \<and> ky < length wy \<and> wx ! kx = wy ! ky
        | _ \<Rightarrow> True"
    unfolding spec_solution_def by fast
  with wx wy show ?thesis by (simp add: agrees_def)
qed

lemma ac3_sol_inv_step:
  assumes wf: "wf_crossword P" and sol: "spec_solution P s"
    and inv: "ac3_sol_inv P s D (arc # rest)"
    and ov: "lookup (overlaps P) arc = Inr (Some ov)"
    and rev: "revise P D (fst arc) (snd arc) = Inr (rm, D1)"
    and dx1: "lookup D1 (fst arc) = Inr dx1" "dx1 \<noteq> []"
  shows "ac3_sol_inv P s D1
     (if rm then rest @ filter (\<lambda>pa. fst arc = snd pa) (map fst (overlaps P)) else rest)"
proof -
  obtain x y where arc: "arc = (x, y)" by (cases arc)
  obtain kx ky where k: "ov = (kx, ky)" by (cases ov)
  from ov have mo: "map_of (overlaps P) (x, y) = Some (Some (kx, ky))"
    by (simp add: lookup_def arc k split: option.splits)
  from revise_step[OF rev[unfolded arc fst_conv snd_conv] mo dx1[unfolded arc fst_conv]]
  obtain dx dy where
    dx: "map_of D x = Some dx" and dy: "map_of D y = Some dy" and
    filt: "dx1 = filter (\<lambda>wx. \<exists>wy\<in>set dy. agrees kx ky wx wy) dx" and
    D1: "D1 = AList.update x dx1 D"
    by blast
  from mo have mem: "((x, y), Some (kx, ky)) \<in> set (overlaps P)" by (rule map_of_SomeD)
  note o = wf_overlapD[OF wf mem]
  from inv have a: "ac3_inv P D (arc # rest)" and q: "set (arc # rest) \<subseteq> set (map fst (overlaps P))"
    and keys: "map fst D = variables P" and fd: "from_domains P D s"
    and voc: "\<forall>v d. map_of D v = Some d \<longrightarrow> set d \<subseteq> set (words P)"
    unfolding ac3_sol_inv_def by simp_all
  have 1: "ac3_inv P D1
     (if rm then rest @ filter (\<lambda>pa. fst arc = snd pa) (map fst (overlaps P)) else rest)"
    by (rule ac3_inv_step[OF wf_irreflexive[OF wf] a ov rev dx1])
  have 2: "set (if rm then rest @ filter (\<lambda>pa. fst arc = snd pa) (map fst (overlaps P)) else rest)
      \<subseteq> set (map fst (overlaps P))"
    using q by auto
  have 3: "map fst D1 = variables P" using revise_keys[OF rev] keys by simp
  have 4: "from_domains P D1 s"
    unfolding from_domains_def
  proof (intro ballI allI impI)
    fix v w assume v: "v \<in> set (variables P)" and w: "map_of s v = Some (Some w)"
    from fd v w obtain d where d: "map_of D v = Some d" "w \<in> set d"
      unfolding from_domains_def by blast
    show "\<exists>d. map_of D1 v = Some d \<and> w \<in> set d"
    proof (cases "v = x")
      case False
      with d show ?thesis by (simp add: D1 update_conv')
    next
      case True
      from solution_supports[OF sol wf mo] obtain wx wy where
        s: "map_of s x = Some (Some wx)" "map_of s y = Some (Some wy)" "agrees kx ky wx wy"
        by blast
      from fd o(2) s(2) dy have "wy \<in> set dy" unfolding from_domains_def by fastforce
      with s True w d dx have "w \<in> set dx1" by (auto simp: filt)
      with True show ?thesis by (simp add: D1 update_conv')
    qed
  qed
  have 5: "\<forall>v d. map_of D1 v = Some d \<longrightarrow> set d \<subseteq> set (words P)"
  proof (intro allI impI)
    fix v d assume d: "map_of D1 v = Some d"
    show "set d \<subseteq> set (words P)"
    proof (cases "v = x")
      case True
      with d have "d = dx1" by (simp add: D1 update_conv')
      with voc dx show ?thesis by (auto simp: filt)
    next
      case False
      with d voc show ?thesis by (simp add: D1 update_conv')
    qed
  qed
  from 1 2 3 4 5 show ?thesis unfolding ac3_sol_inv_def by blast
qed

lemma ac3_sol_inv_prog:
  assumes wf: "wf_crossword P" and sol: "spec_solution P s"
    and inv: "ac3_sol_inv P s D (arc # rest)"
  shows "lookup (overlaps P) arc = Inr None \<or>
        (\<exists>ov rm D1 dx1. lookup (overlaps P) arc = Inr (Some ov) \<and>
           revise P D (fst arc) (snd arc) = Inr (rm, D1) \<and>
           lookup D1 (fst arc) = Inr dx1 \<and> dx1 \<noteq> [])"
proof -
  obtain x y where arc: "arc = (x, y)" by (cases arc)
  from inv have q: "arc \<in> set (map fst (overlaps P))"
    and keys: "map fst D = variables P" and fd: "from_domains P D s"
    unfolding ac3_sol_inv_def by simp_all
  from key_lookup[OF q] obtain ov where ov: "map_of (overlaps P) arc = Some ov" ..
  show ?thesis
  proof (cases ov)
    case None
    with ov show ?thesis by (simp add: lookup_def)
  next
    case (Some k)
    obtain kx ky where k: "k = (kx, ky)" by (cases k)
    from ov Some k arc have mo: "map_of (overlaps P) (x, y) = Some (Some (kx, ky))" by simp
    then have mem: "((x, y), Some (kx, ky)) \<in> set (overlaps P)" by (rule map_of_SomeD)
    note o = wf_overlapD[OF wf mem]
    from o(1,2) keys key_lookup[of x D] key_lookup[of y D] obtain dx dy where
      dx: "map_of D x = Some dx" and dy: "map_of D y = Some dy" by auto
    from solution_supports[OF sol wf mo] obtain wx wy where
      s: "map_of s x = Some (Some wx)" "map_of s y = Some (Some wy)" "agrees kx ky wx wy"
      by blast
    from fd o(1) s(1) dx have "wx \<in> set dx" unfolding from_domains_def by fastforce
    moreover from fd o(2) s(2) dy have "wy \<in> set dy" unfolding from_domains_def by fastforce
    ultimately have "filter (\<lambda>wx. \<exists>wy\<in>set dy. agrees kx ky wx wy) dx \<noteq> []"
      using s(3) by (auto simp: filter_empty_conv)
    moreover have "lookup (overlaps P) arc = Inr (Some (kx, ky))"
      using ov Some k by (simp add: lookup_def)
    moreover note revise_defined[OF mo dx dy]
    ultimately show ?thesis by (simp add: arc lookup_update_same)
  qed
qed

lemma ac3_with_solution:
  assumes wf: "wf_crossword P" and sol: "spec_solution P s"
    and keys: "map fst D = variables P" and fd: "from_domains P D s"
    and voc: "\<forall>v d. map_of D v = Some d \<longrightarrow> set d \<subseteq> set (words P)"
  shows "\<exists>D'. ac3 P D None = Inr (True, D') \<and> ac3_sol_inv P s D' []"
proof -
  have init: "ac3_sol_inv P s D (map fst (overlaps P))"
    unfolding ac3_sol_inv_def using keys fd voc ac3_inv_init by simp
  have "\<exists>D'. ac3_loop P D (map fst (overlaps P)) = Inr (True, D') \<and> ac3_sol_inv P s D' []"
  proof (rule ac3_loop_total[where I = "ac3_sol_inv P s", OF init])
    fix D arc rest
    assume "ac3_sol_inv P s D (arc # rest)" "lookup (overlaps P) arc = Inr None"
    then show "ac3_sol_inv P s D rest"
      unfolding ac3_sol_inv_def using ac3_inv_skip by auto
  next
    fix D arc rest ov rm D1 dx1
    assume "ac3_sol_inv P s D (arc # rest)" "lookup (overlaps P) arc = Inr (Some ov)"
      "revise P D (fst arc) (snd arc) = Inr (rm, D1)" "lookup D1 (fst arc) = Inr dx1" "dx1 \<noteq> []"
    then show "ac3_sol_inv P s D1
      (if rm then rest @ filter (\<lambda>pa. fst arc = snd pa) (map fst (overlaps P)) else rest)"
      by (rule ac3_sol_inv_step[OF wf sol])
  next
    fix D arc rest
    assume "ac3_sol_inv P s D (arc # rest)"
    then show "lookup (overlaps P) arc = Inr None \<or>
        (\<exists>ov rm D1 dx1. lookup (overlaps P) arc = Inr (Some ov) \<and>
           revise P D (fst arc) (snd arc) = Inr (rm, D1) \<and>
           lookup D1 (fst arc) = Inr dx1 \<and> dx1 \<noteq> [])"
      by (rule ac3_sol_inv_prog[OF wf sol])
  qed
  then show ?thesis by (simp add: ac3_def)
qed

lemma index_safe_of_inv:
  assumes "ac3_inv P D []"
  shows "index_safe P D"
  unfolding index_safe_def
proof (intro allI impI ballI)
  fix x y kx ky d w
  assume ov: "map_of (overlaps P) (x, y) = Some (Some (kx, ky))"
    and d: "map_of D x = Some d" and w: "w \<in> set d"
  from map_of_Some_key[OF ov] have "(x, y) \<in> set (map fst (overlaps P))" by simp
  with assms ov have "arc_ok P D (x, y)"
    and "\<exists>dx dy. map_of D x = Some dx \<and> dx \<noteq> [] \<and> map_of D y = Some dy"
    unfolding ac3_inv_def by force+
  then obtain dy where dy: "map_of D y = Some dy" by auto
  from \<open>arc_ok P D (x, y)\<close> ov d dy have "\<forall>wx\<in>set d. \<exists>wy\<in>set dy. agrees kx ky wx wy"
    by (simp add: arc_ok_def)
  with w obtain wy where "agrees kx ky w wy" by blast
  then show "kx < length w" by (simp add: agrees_def)
qed

text \<open>
  C2. Search completeness: when some assignment of vocabulary words to all the variables
  satisfies every length, overlap and distinctness constraint, \<^verbatim>\<open>solve\<close> (node
  consistency, AC-3, then the backtracking search from the empty assignment) returns an
  assignment, and the one it returns is such a satisfying assignment of vocabulary words.
\<close>

theorem search_completeness:
  assumes wf: "wf_crossword P" and sol: "spec_solution P s"
    and voc: "\<forall>v\<in>set (variables P). \<forall>w. map_of s v = Some (Some w) \<longrightarrow> w \<in> set (words P)"
  shows "\<exists>a. solve P = Inr (Some a) \<and> map fst a = variables P \<and> spec_solution P a \<and>
     (\<forall>v\<in>set (variables P). \<forall>w. map_of a v = Some (Some w) \<longrightarrow> w \<in> set (words P))"
proof -
  let ?D = "enforce_node_consistency (init_domains P)"
  have fd: "from_domains P ?D s"
    unfolding from_domains_def
  proof (intro ballI allI impI)
    fix v w assume v: "v \<in> set (variables P)" and w: "map_of s v = Some (Some w)"
    from sol v w have "int (length w) = var_length v" unfolding spec_solution_def by force
    with voc v w show "\<exists>d. map_of ?D v = Some d \<and> w \<in> set d"
      by (simp add: map_of_enforce_init)
  qed
  have vocD: "\<forall>v d. map_of ?D v = Some d \<longrightarrow> set d \<subseteq> set (words P)"
  proof (intro allI impI)
    fix v d assume d: "map_of ?D v = Some d"
    from map_of_Some_key[OF d] have "v \<in> set (variables P)"
      by (metis keys_enforce_init list.set_map)
    with d show "set d \<subseteq> set (words P)" by (auto simp: map_of_enforce_init)
  qed
  from ac3_with_solution[OF wf sol keys_enforce_init fd vocD] obtain D' where
    ac3: "ac3 P ?D None = Inr (True, D')" and inv: "ac3_sol_inv P s D' []" by blast
  from inv have ainv: "ac3_inv P D' []" and keys: "map fst D' = variables P"
    and fd': "from_domains P D' s"
    and voc': "\<forall>v d. map_of D' v = Some d \<longrightarrow> set d \<subseteq> set (words P)"
    unfolding ac3_sol_inv_def by simp_all
  have start_keys: "map fst (start_assignment P []) = variables P"
    by (simp add: start_assignment_def comp_def)
  have start_fd: "from_domains P D' (start_assignment P [])"
    unfolding from_domains_def by (simp add: map_of_start_empty)
  have start_ext: "extends_to P (start_assignment P []) s"
    unfolding extends_to_def by (simp add: map_of_start_empty)
  from backtrack_complete[OF wf keys index_safe_of_inv[OF ainv] sol fd'
      start_keys start_fd start_ext]
  obtain a where bt: "backtrack P D' [] = Inr (Some a)" ..
  from backtrack_sound[OF bt consistent_start]
  have a: "consistent P a = Inr True" "assignment_complete a" "map fst a = variables P"
    by (simp_all add: start_keys)
  have sa: "spec_solution P a" by (rule spec_solution_of_consistent[OF wf a(3,2,1)])
  have va: "\<forall>v\<in>set (variables P). \<forall>w. map_of a v = Some (Some w) \<longrightarrow> w \<in> set (words P)"
  proof (intro ballI allI impI)
    fix v w assume v: "v \<in> set (variables P)" and w: "map_of a v = Some (Some w)"
    from backtrack_from_domains[OF bt w] map_of_start_empty[OF v] voc'
    show "w \<in> set (words P)" by auto
  qed
  from ac3 bt have "solve P = Inr (Some a)" by (simp add: solve_def solve_trace_def)
  with a(3) sa va show ?thesis by blast
qed

theorem search_completeness_witness:
  "wf_crossword ex_cross \<and>
   spec_solution ex_cross [(ex_across, Some ''TO''), (ex_down, Some ''OX'')] \<and>
   (\<exists>a. solve ex_cross = Inr (Some a) \<and> spec_solution ex_cross a)"
proof -
  have wf: "wf_crossword ex_cross" by code_simp
  have sol: "spec_solution ex_cross [(ex_across, Some ''TO''), (ex_down, Some ''OX'')]"
    by code_simp
  have voc: "\<forall>v\<in>set (variables ex_cross). \<forall>w.
      map_of [(ex_across, Some ''TO''), (ex_down, Some ''OX'')] v = Some (Some w) \<longrightarrow>
      w \<in> set (words ex_cross)"
    by (auto simp: ex_cross_def split: if_splits)
  from search_completeness[OF wf sol voc] wf sol show ?thesis by blast
qed

section \<open>Infeasible puzzles: what solve returns\<close>

lemma ac3_loop_failure:
  assumes "ac3_loop P D q = Inr (False, D')" and "I D q"
    and Iskip: "\<And>D arc rest. I D (arc # rest) \<Longrightarrow> lookup (overlaps P) arc = Inr None \<Longrightarrow> I D rest"
    and Istep: "\<And>D arc rest ov rm D1 dx1. I D (arc # rest) \<Longrightarrow>
        lookup (overlaps P) arc = Inr (Some ov) \<Longrightarrow>
        revise P D (fst arc) (snd arc) = Inr (rm, D1) \<Longrightarrow>
        lookup D1 (fst arc) = Inr dx1 \<Longrightarrow> dx1 \<noteq> [] \<Longrightarrow>
        I D1 (if rm then rest @ filter (\<lambda>pa. fst arc = snd pa) (map fst (overlaps P)) else rest)"
  shows "\<exists>D0 arc rest ov rm. I D0 (arc # rest) \<and> lookup (overlaps P) arc = Inr (Some ov) \<and>
     revise P D0 (fst arc) (snd arc) = Inr (rm, D') \<and> lookup D' (fst arc) = Inr []"
  using assms(1,2)
proof (induction "(total_size D, length q)" arbitrary: D q rule: less_induct)
  case less
  show ?case
  proof (cases q)
    case Nil
    with less.prems show ?thesis by simp
  next
    case (Cons arc rest)
    from less.prems(1)[unfolded Cons] show ?thesis
    proof (cases rule: ac3_loop_ConsE)
      case skip
      have "(total_size D, length rest) < (total_size D, length q)" using Cons by simp
      from less.hyps[OF this skip(2) Iskip[OF less.prems(2)[unfolded Cons] skip(1)]]
      show ?thesis .
    next
      case (fail ov rm)
      with less.prems(2)[unfolded Cons] show ?thesis by blast
    next
      case (continue ov rm D1 dx1)
      let ?q1 = "if rm then rest @ filter (\<lambda>pa. fst arc = snd pa) (map fst (overlaps P))
                 else rest"
      have "(total_size D1, length ?q1) < (total_size D, length q)"
      proof (cases rm)
        case True
        with revise_shrinks[of P D "fst arc" "snd arc" D1] continue(2) show ?thesis by simp
      next
        case False
        with revise_unchanged[of P D "fst arc" "snd arc" D1] continue(2) Cons show ?thesis
          by simp
      qed
      from less.hyps[OF this continue(5)
          Istep[OF less.prems(2)[unfolded Cons] continue(1,2,3,4)]]
      show ?thesis .
    qed
  qed
qed

lemma revise_pointwise:
  assumes "revise P D x y = Inr (rm, D1)" and "map_of D1 v = Some d1"
  shows "\<exists>d. map_of D v = Some d \<and> set d1 \<subseteq> set d"
proof -
  from assms(1) obtain dx removed where dx: "map_of D x = Some dx"
    and D1: "D1 = AList.update x (remove_each removed dx) D"
    by (auto simp: revise_def lookup_def split: option.splits sum.splits)
  show ?thesis
  proof (cases "v = x")
    case True
    with assms(2) dx show ?thesis by (auto simp: D1 update_conv' set_remove_each)
  next
    case False
    with assms(2) show ?thesis by (simp add: D1 update_conv')
  qed
qed

lemma arc_unsafe_revise:
  assumes "revise P D x y = Inr (rm, D1)" and "arc_unsafe P D1 arc"
  shows "arc_unsafe P D arc"
proof -
  from assms(2) obtain kx ky d1 w where ov: "map_of (overlaps P) arc = Some (Some (kx, ky))"
    and d1: "map_of D1 (fst arc) = Some d1" and w: "w \<in> set d1" "\<not> kx < length w"
    unfolding arc_unsafe_def by blast
  from revise_pointwise[OF assms(1) d1] obtain d where "map_of D (fst arc) = Some d"
    "set d1 \<subseteq> set d" by blast
  with ov w show ?thesis unfolding arc_unsafe_def by blast
qed

lemma order_inv_init:
  assumes "dict_order P"
  shows "order_inv P D (map fst (overlaps P))"
  unfolding order_inv_def
proof (intro allI impI)
  fix arc assume "arc_unsafe P D arc"
  then obtain k where "map_of (overlaps P) arc = Some k" unfolding arc_unsafe_def by blast
  from map_of_Some_key[OF this] have "arc \<in> set (map fst (overlaps P))" by simp
  then obtain q1 q2 where split: "map fst (overlaps P) = q1 @ arc # q2"
    by (meson split_list)
  from assms have "\<forall>a\<in>set q1. \<not> comes_before (variables P) (fst arc) (fst a)"
    unfolding dict_order_def split by (simp add: sorted_wrt_append)
  with split show "\<exists>q1 q2. map fst (overlaps P) = q1 @ arc # q2 \<and>
           (\<forall>a\<in>set q1. \<not> comes_before (variables P) (fst arc) (fst a))" by blast
qed

lemma order_inv_pop:
  assumes inv: "order_inv P D (h # rest)"
    and sub: "\<And>arc. arc_unsafe P D1 arc \<Longrightarrow> arc_unsafe P D arc"
    and h: "\<not> arc_unsafe P D1 h"
  shows "order_inv P D1 (rest @ extra)"
  unfolding order_inv_def
proof (intro allI impI)
  fix arc assume u: "arc_unsafe P D1 arc"
  from inv sub[OF u] obtain q1 q2 where q: "h # rest = q1 @ arc # q2"
    and o: "\<forall>a\<in>set q1. \<not> comes_before (variables P) (fst arc) (fst a)"
    unfolding order_inv_def by blast
  from u h have "arc \<noteq> h" by auto
  with q obtain q1' where q1: "q1 = h # q1'" by (cases q1) auto
  with q have "rest @ extra = q1' @ arc # (q2 @ extra)" by simp
  moreover from o q1 have "\<forall>a\<in>set q1'. \<not> comes_before (variables P) (fst arc) (fst a)" by simp
  ultimately show "\<exists>q1 q2. rest @ extra = q1 @ arc # q2 \<and>
           (\<forall>a\<in>set q1. \<not> comes_before (variables P) (fst arc) (fst a))" by blast
qed

lemma order_inv_skip:
  assumes "order_inv P D (arc # rest)" and "lookup (overlaps P) arc = Inr None"
  shows "order_inv P D rest"
proof -
  from assms(2) have "map_of (overlaps P) arc = Some None"
    by (simp add: lookup_def split: option.splits)
  then have "\<not> arc_unsafe P D arc" by (simp add: arc_unsafe_def)
  from order_inv_pop[OF assms(1) _ this, of "[]"] show ?thesis by simp
qed

lemma order_inv_step:
  assumes inv: "order_inv P D (arc # rest)"
    and ov: "lookup (overlaps P) arc = Inr (Some ov)"
    and rev: "revise P D (fst arc) (snd arc) = Inr (rm, D1)"
    and dx1: "lookup D1 (fst arc) = Inr dx1" "dx1 \<noteq> []"
  shows "order_inv P D1
     (if rm then rest @ filter (\<lambda>pa. fst arc = snd pa) (map fst (overlaps P)) else rest)"
proof -
  obtain x y where arc: "arc = (x, y)" by (cases arc)
  obtain kx ky where k: "ov = (kx, ky)" by (cases ov)
  from ov have mo: "map_of (overlaps P) (x, y) = Some (Some (kx, ky))"
    by (simp add: lookup_def arc k split: option.splits)
  from revise_step[OF rev[unfolded arc fst_conv snd_conv] mo dx1[unfolded arc fst_conv]]
  obtain dx dy where
    filt: "dx1 = filter (\<lambda>wx. \<exists>wy\<in>set dy. agrees kx ky wx wy) dx" and
    D1: "D1 = AList.update x dx1 D"
    by blast
  have "map_of D1 x = Some dx1" by (simp add: D1 update_conv')
  with mo have safe: "\<not> arc_unsafe P D1 arc"
    by (auto simp: arc_unsafe_def arc filt agrees_def)
  note pop = order_inv_pop[OF inv arc_unsafe_revise[OF rev] safe]
  show ?thesis
  proof (cases rm)
    case True
    with pop[of "filter (\<lambda>pa. fst arc = snd pa) (map fst (overlaps P))"] show ?thesis by simp
  next
    case False
    with pop[of "[]"] show ?thesis by simp
  qed
qed

lemma not_comes_before_self: "\<not> comes_before vs x x"
  unfolding comes_before_def by (auto dest: set_takeWhileD)

lemma ac3_loop_false_blocked:
  assumes ord: "dict_order P"
    and loop: "ac3_loop P D (map fst (overlaps P)) = Inr (False, D')"
  shows "\<exists>x. map_of D' x = Some [] \<and>
     (\<forall>u y. comes_before (variables P) u x \<longrightarrow> \<not> arc_unsafe P D' (u, y))"
proof -
  have "\<exists>D0 arc rest ov rm. order_inv P D0 (arc # rest) \<and>
     lookup (overlaps P) arc = Inr (Some ov) \<and>
     revise P D0 (fst arc) (snd arc) = Inr (rm, D') \<and> lookup D' (fst arc) = Inr []"
  proof (rule ac3_loop_failure[where I = "order_inv P", OF loop])
    show "order_inv P D (map fst (overlaps P))" by (rule order_inv_init[OF ord])
  next
    fix D arc rest
    assume "order_inv P D (arc # rest)" "lookup (overlaps P) arc = Inr None"
    then show "order_inv P D rest" by (rule order_inv_skip)
  next
    fix D arc rest ov rm D1 dx1
    assume "order_inv P D (arc # rest)" "lookup (overlaps P) arc = Inr (Some ov)"
      "revise P D (fst arc) (snd arc) = Inr (rm, D1)" "lookup D1 (fst arc) = Inr dx1" "dx1 \<noteq> []"
    then show "order_inv P D1
      (if rm then rest @ filter (\<lambda>pa. fst arc = snd pa) (map fst (overlaps P)) else rest)"
      by (rule order_inv_step)
  qed
  then obtain D0 arc rest rm where
    inv: "order_inv P D0 (arc # rest)" and
    rev: "revise P D0 (fst arc) (snd arc) = Inr (rm, D')" and
    empty: "lookup D' (fst arc) = Inr []"
    by blast
  from empty have e: "map_of D' (fst arc) = Some []"
    by (simp add: lookup_def split: option.splits)
  have "\<not> arc_unsafe P D' (u, y)" if cb: "comes_before (variables P) u (fst arc)" for u y
  proof
    assume "arc_unsafe P D' (u, y)"
    from arc_unsafe_revise[OF rev this] inv obtain q1 q2 where
      q: "arc # rest = q1 @ (u, y) # q2" and
      o: "\<forall>a\<in>set q1. \<not> comes_before (variables P) (fst (u, y)) (fst a)"
      unfolding order_inv_def by blast
    show False
    proof (cases q1)
      case Nil
      with q have "fst arc = u" by auto
      with cb not_comes_before_self show False by simp
    next
      case (Cons a q1')
      with q have "arc \<in> set q1" by simp
      with o cb show False by auto
    qed
  qed
  with e show ?thesis by blast
qed

lemma find_before:
  "find Q xs = Some v \<Longrightarrow> x \<in> set xs \<Longrightarrow> Q x \<Longrightarrow>
   v = x \<or> v \<in> set (takeWhile (\<lambda>y. y \<noteq> x) xs)"
proof (induction xs)
  case Nil
  then show ?case by simp
next
  case (Cons a xs)
  show ?case
  proof (cases "a = x")
    case True
    with Cons.prems show ?thesis by simp
  next
    case False
    show ?thesis
    proof (cases "Q a")
      case True
      with Cons.prems False show ?thesis by simp
    next
      case nq: False
      with Cons False show ?thesis by auto
    qed
  qed
qed

lemma select_before:
  assumes sel: "select_unassigned_variable asg = Some var"
    and x: "x \<in> set (map fst asg)" "map_of asg x = Some None"
  shows "var = x \<or> comes_before (map fst asg) var x"
  using find_before[OF sel[unfolded select_unassigned_variable_def] x(1)] x(2)
  by (simp add: comes_before_def lookup_def)

lemma try_each_all_None:
  "\<forall>x\<in>set xs. f x = Inr None \<Longrightarrow> try_each f xs = Inr None"
  by (induction xs) auto

lemma map_of_map_values:
  "map_of (map (\<lambda>(k, v). (k, f k v)) al) k = map_option (f k) (map_of al k)"
  by (induction al) auto

lemma backtrack_blocked:
  assumes wf: "wf_crossword P" and keysD: "map fst D = variables P"
    and x: "x \<in> set (variables P)" and empty: "map_of D x = Some []"
    and safe: "\<And>u y. comes_before (variables P) u x \<Longrightarrow> \<not> arc_unsafe P D (u, y)"
  shows "map fst (start_assignment P asg) = variables P \<Longrightarrow>
     from_domains P D (start_assignment P asg) \<Longrightarrow>
     map_of (start_assignment P asg) x = Some None \<Longrightarrow>
     (\<forall>v w. map_of (start_assignment P asg) v = Some (Some w) \<longrightarrow>
        comes_before (variables P) v x) \<Longrightarrow>
     backtrack P D asg = Inr None"
proof (induction "unassigned (start_assignment P asg)" arbitrary: asg rule: less_induct)
  case less
  define asg0 where "asg0 = start_assignment P asg"
  note unf = backtrack_unfold[of P D asg, folded asg0_def]
  from less.prems have keys: "map fst asg0 = variables P" and dom: "from_domains P D asg0"
    and xn: "map_of asg0 x = Some None"
    and pre: "\<forall>v w. map_of asg0 v = Some (Some w) \<longrightarrow> comes_before (variables P) v x"
    by (simp_all add: asg0_def)
  define D2 where
    "D2 = map (\<lambda>(v, d). (v, if comes_before (variables P) v x then d else [])) D"
  have D2: "map_of D2 v =
      map_option (\<lambda>d. if comes_before (variables P) v x then d else []) (map_of D v)" for v
    unfolding D2_def by (rule map_of_map_values)
  have safe2: "index_safe P D2"
    unfolding index_safe_def
  proof (intro allI impI ballI)
    fix u y kx ky d w
    assume ov: "map_of (overlaps P) (u, y) = Some (Some (kx, ky))"
      and d: "map_of D2 u = Some d" and w: "w \<in> set d"
    from d w D2[of u] have cb: "comes_before (variables P) u x" and "map_of D u = Some d"
      by (auto split: if_splits)
    with safe[OF cb, of y] ov w show "kx < length w" unfolding arc_unsafe_def by auto
  qed
  have not_complete: "\<not> assignment_complete asg0"
  proof
    assume "assignment_complete asg0"
    moreover from x keys have "x \<in> set (map fst asg0)" by simp
    ultimately have "lookup asg0 x \<noteq> Inr None"
      by (auto simp: assignment_complete_def list_all_iff)
    with xn show False by (simp add: lookup_def)
  qed
  with select_None_complete[of asg0] obtain var where
    sel: "select_unassigned_variable asg0 = Some var" by auto
  from select_Some_key[OF sel] keys have var: "var \<in> set (variables P)"
    by (metis list.set_map)
  from order_domain_values_ok[OF wf keysD keys var] obtain vals where
    ord: "order_domain_values P D var asg0 = Inr vals" ..
  from order_domain_values_set[OF ord] obtain d where
    d: "map_of D var = Some d" "set vals = set d" by blast
  let ?f = "\<lambda>val. case consistent P (AList.update var (Some val) asg0) of
                     Inl e \<Rightarrow> Inl e
                   | Inr False \<Rightarrow> Inr None
                   | Inr True \<Rightarrow> backtrack P D (AList.update var (Some val) asg0)"
  have "\<forall>val\<in>set vals. ?f val = Inr None"
  proof
    fix val assume val: "val \<in> set vals"
    with d empty have vx: "var \<noteq> x" by auto
    from x keys have "x \<in> set (map fst asg0)" by simp
    from select_before[OF sel this xn] vx keys have cb: "comes_before (variables P) var x"
      by simp
    let ?a = "AList.update var (Some val) asg0"
    have k: "map fst ?a = variables P"
      using select_Some_key[OF sel] keys by (simp add: map_fst_update_key)
    have fd: "from_domains P D ?a"
      using from_domains_update[OF dom d(1)] val d(2) by simp
    have xn': "map_of ?a x = Some None" using xn vx by (simp add: update_conv')
    have pre': "\<forall>v w. map_of ?a v = Some (Some w) \<longrightarrow> comes_before (variables P) v x"
      using pre cb by (auto simp: update_conv')
    have fd2: "from_domains P D2 ?a"
      unfolding from_domains_def
    proof (intro ballI allI impI)
      fix v w assume v: "v \<in> set (variables P)" and w: "map_of ?a v = Some (Some w)"
      from fd v w obtain dv where "map_of D v = Some dv" "w \<in> set dv"
        unfolding from_domains_def by blast
      with pre' w show "\<exists>d. map_of D2 v = Some d \<and> w \<in> set d" by (simp add: D2)
    qed
    note con = consistent_safe[OF wf k safe2 fd2]
    show "?f val = Inr None"
    proof (cases "\<forall>v\<in>set (variables P). var_fine P ?a v")
      case True
      have "unassigned (start_assignment P ?a) < unassigned (start_assignment P asg)"
        using unassigned_update_less[OF sel] by (simp add: asg0_def)
      from less.hyps[OF this] k fd xn' pre' have "backtrack P D ?a = Inr None" by simp
      with con True show ?thesis by simp
    next
      case False
      with con show ?thesis by simp
    qed
  qed
  from try_each_all_None[OF this] not_complete sel ord unf show ?case by simp
qed

text \<open>
  C4, as amended. When AC-3, run by \<^verbatim>\<open>solve\<close> over all arcs after node consistency,
  empties a domain and reports infeasible, \<^verbatim>\<open>solve\<close> reports no solution: it returns
  \<^verbatim>\<open>None\<close>. It does not skip the search for that: \<^verbatim>\<open>solve\<close> drops the result of
  \<^verbatim>\<open>ac3\<close> and calls \<^verbatim>\<open>backtrack\<close>, which fails at the emptied domain. Every variable
  before that one has had all its arcs revised, so no word tried for it is too short for
  an overlap index and the consistency check does not raise.
\<close>

theorem infeasible_reports_no_solution:
  assumes wf: "wf_crossword P" and ord: "dict_order P"
    and ac3: "ac3 P (enforce_node_consistency (init_domains P)) None = Inr (False, D')"
  shows "solve_trace P = ([Enforce_node_consistency, Ac3, Backtrack], Inr None) \<and>
     solve P = Inr None"
proof -
  from ac3 have loop:
    "ac3_loop P (enforce_node_consistency (init_domains P)) (map fst (overlaps P)) = Inr (False, D')"
    by (simp add: ac3_def)
  from ac3_loop_false_blocked[OF ord loop] obtain x where
    empty: "map_of D' x = Some []" and
    safe: "\<And>u y. comes_before (variables P) u x \<Longrightarrow> \<not> arc_unsafe P D' (u, y)"
    by blast
  have keys: "map fst D' = variables P"
    using ac3_loop_keys[OF loop] keys_enforce_init by simp
  from map_of_Some_key[OF empty] keys have x: "x \<in> set (variables P)"
    by (metis list.set_map)
  have start_keys: "map fst (start_assignment P []) = variables P"
    by (simp add: start_assignment_def comp_def)
  have start_fd: "from_domains P D' (start_assignment P [])"
    unfolding from_domains_def by (simp add: map_of_start_empty)
  have start_none: "\<forall>v w. map_of (start_assignment P []) v = Some (Some w) \<longrightarrow>
      comes_before (variables P) v x"
  proof (intro allI impI)
    fix v w assume a: "map_of (start_assignment P []) v = Some (Some w)"
    from map_of_Some_key[OF a] start_keys have "v \<in> set (variables P)" by (metis list.set_map)
    from map_of_start_empty[OF this] a show "comes_before (variables P) v x" by simp
  qed
  from backtrack_blocked[OF wf keys x empty safe start_keys start_fd
      map_of_start_empty[OF x] start_none]
  have "backtrack P D' [] = Inr None" .
  with ac3 show ?thesis by (simp add: solve_def solve_trace_def)
qed

theorem infeasible_reports_no_solution_witness:
  "wf_crossword ex_clash \<and> dict_order ex_clash \<and>
   ac3 ex_clash (enforce_node_consistency (init_domains ex_clash)) None =
     Inr (False, [(ex_clash_across, []), (ex_clash_down, [''CAT'', ''DOG''])]) \<and>
   solve_trace ex_clash = ([Enforce_node_consistency, Ac3, Backtrack], Inr None)"
proof -
  have wf: "wf_crossword ex_clash" by code_simp
  have ord: "dict_order ex_clash" by code_simp
  have a: "ac3 ex_clash (enforce_node_consistency (init_domains ex_clash)) None =
     Inr (False, [(ex_clash_across, []), (ex_clash_down, [''CAT'', ''DOG''])])"
    by code_simp
  from infeasible_reports_no_solution[OF wf ord a] wf ord a show ?thesis by simp
qed

text \<open>
  C4 as stated (no search after an infeasible AC-3) fails on the two crossing slots with
  the vocabulary CAT, DOG: AC-3 empties the domain of the across slot, and \<^verbatim>\<open>solve\<close>
  goes on to call \<^verbatim>\<open>backtrack\<close>.
\<close>

theorem infeasible_search_counterexample:
  "ac3 ex_clash (enforce_node_consistency (init_domains ex_clash)) None =
     Inr (False, [(ex_clash_across, []), (ex_clash_down, [''CAT'', ''DOG''])]) \<and>
   Backtrack \<in> set (fst (solve_trace ex_clash))"
  by code_simp

end
